theory Spec2Isabelle
  imports Complex_Main "HOL-Library.Multiset"
begin

section \<open>Values shared by the sampler and the field generator\<close>

text \<open>
  The repository is two Python batch scripts: \<^verbatim>\<open>DatasetWithAdepy/simulate.py\<close> (the field
  generator \<^verbatim>\<open>create_contamination_scenario\<close>) and \<^verbatim>\<open>DatasetWithAdepy/sample.py\<close> (the
  sparse sampler \<^verbatim>\<open>sample_sparse_data\<close>). Python floats are idealised as \<open>real\<close>;
  where the rounding of a float operation decides how many rows are sampled (the product
  in the sample count, the bin edges of \<^verbatim>\<open>pd.cut\<close>), the rounded result is taken from
  the library instead of being computed exactly. A
  raised exception is a value of \<open>error\<close>; the file system and the console are an
  explicit \<open>world\<close> that every function takes and returns, so that what has been written
  when an exception leaves the function is still visible.
\<close>

datatype error =
    ValueError_int_literal
  | IndexError
  | ValueError_strategy
  | ValueError_negative_dimensions
  | ValueError_choice
  | ValueError_sample
  | ValueError_nan_to_int
  | ValueError_bins
  | ValueError_concat
  | UnboundLocalError
  | ValueError_c0_length
  | ValueError_Qa_length
  | ZeroDivisionError
  | ValueError_linspace
  | ValueError_empty_max

section \<open>sample.py: the sparse sampler\<close>

subsection \<open>Tables, configuration, world\<close>

text \<open>A row of a snapshot table: the columns X, Y (metres) and concentration (mg/L).\<close>

record row =
  x_m :: real
  y_m :: real
  conc :: real

type_synonym table = "row list"

text \<open>The arguments of \<^verbatim>\<open>sample_sparse_data\<close>; \<open>sample_num = None\<close> is Python's None.
  The input directory \<^verbatim>\<open>input_csv_dir\<close> is passed to the model as its listing.\<close>

record config =
  output_sparse_dir :: string
  sample_strategy :: string
  sample_ratio :: real
  sample_num :: "int option"
  min_concentration :: real

datatype message =
    Warn string
  | Done string nat nat
  | BBox real real real real

text \<open>
  The global state the sampler touches: directories made, tables written (in the order of
  the \<^verbatim>\<open>to_csv\<close> calls, under \<open>output_sparse_dir\<close>), lines printed, and the state of
  NumPy's global generator, which \<^verbatim>\<open>np.random.choice\<close> and an unseeded
  \<^verbatim>\<open>DataFrame.sample\<close> read and advance. The generator state is the sequence of its
  coming draws; past its end every draw is 0.
\<close>

record world =
  made_dirs :: "string list"
  out_files :: "(string \<times> table) list"
  stdout :: "message list"
  np_random :: "nat list"

text \<open>
  What the sampler takes from Python, SciPy, NumPy and pandas without this repository
  defining it: the builtin \<^verbatim>\<open>int\<close> on a string (None where it raises), the stream of
  draws of a generator freshly seeded with a given seed, the \<open>i\<close>-th point of the seeded
  two-dimensional Latin-hypercube design of size \<open>n\<close>, the product of two floats as
  Python rounds it, and the bin edges \<^verbatim>\<open>pd.cut\<close> computes in floating point for a column
  with a given minimum and maximum and a given number of bins.
\<close>

record pylib =
  py_int :: "string \<Rightarrow> int option"
  seeded_draws :: "nat \<Rightarrow> nat list"
  lhs_unit :: "nat \<Rightarrow> nat \<Rightarrow> nat \<Rightarrow> real \<times> real"
  float_mul :: "real \<Rightarrow> real \<Rightarrow> real"
  cut_edges :: "real \<Rightarrow> real \<Rightarrow> nat \<Rightarrow> real list"

subsection \<open>File names\<close>

text \<open>File names are UTF-8 byte strings; the three constants are the bytes of the source's literals.\<close>

definition global_prefix :: string where
  "global_prefix = [CHR 0xE5, CHR 0x85, CHR 0xA8, CHR 0xE5, CHR 0xB1, CHR 0x80,
                    CHR 0xE6, CHR 0xB5, CHR 0x93, CHR 0xE5, CHR 0xBA, CHR 0xA6, CHR 0x5F]"

definition day_csv :: string where
  "day_csv = [CHR 0xE5, CHR 0xA4, CHR 0xA9, CHR 0x2E, CHR 0x63, CHR 0x73, CHR 0x76]"

definition sparse_prefix :: string where
  "sparse_prefix = [CHR 0xE7, CHR 0xA8, CHR 0x80, CHR 0xE7, CHR 0x96, CHR 0x8F,
                    CHR 0xE8, CHR 0xA7, CHR 0x82, CHR 0xE6, CHR 0xB5, CHR 0x8B, CHR 0x5F]"

definition startswith :: "string \<Rightarrow> string \<Rightarrow> bool" where
  "startswith s p = (take (length p) s = p)"

definition endswith :: "string \<Rightarrow> string \<Rightarrow> bool" where
  "endswith s p = (length p \<le> length s \<and> drop (length s - length p) s = p)"

fun split_on :: "char \<Rightarrow> string \<Rightarrow> string list" where
  "split_on c [] = [[]]"
| "split_on c (x # xs) =
     (if x = c then [] # split_on c xs
      else (case split_on c xs of [] \<Rightarrow> [[x]] | t # ts \<Rightarrow> (x # t) # ts))"

text \<open>\<^verbatim>\<open>s.replace(old, new)\<close>: every non-overlapping occurrence, left to right. The
  counter skips the rest of an occurrence already replaced.\<close>

fun replace_from :: "string \<Rightarrow> string \<Rightarrow> nat \<Rightarrow> string \<Rightarrow> string" where
  "replace_from old new k [] = []"
| "replace_from old new (Suc k) (c # cs) = replace_from old new k cs"
| "replace_from old new 0 (c # cs) =
     (if old \<noteq> [] \<and> take (length old) (c # cs) = old
      then new @ replace_from old new (length old - 1) cs
      else c # replace_from old new 0 cs)"

definition str_replace :: "string \<Rightarrow> string \<Rightarrow> string \<Rightarrow> string" where
  "str_replace s old new = replace_from old new 0 s"

text \<open>The sort key of line 24: \<^verbatim>\<open>int(x.split("_")[1].replace(day_csv, ""))\<close>.\<close>

definition time_key :: "pylib \<Rightarrow> string \<Rightarrow> error + int" where
  "time_key L x =
     (case split_on (CHR ''_'') x of
        _ # tok # _ \<Rightarrow>
          (case py_int L (str_replace tok day_csv []) of
             None \<Rightarrow> Inl ValueError_int_literal
           | Some k \<Rightarrow> Inr k)
      | _ \<Rightarrow> Inl IndexError)"

text \<open>\<^verbatim>\<open>list.sort(key=...)\<close> computes the key of every element, in list order, before it
  moves anything; the first key that raises ends the call.\<close>

fun sort_keys :: "pylib \<Rightarrow> (string \<times> table) list \<Rightarrow> error + (int \<times> string \<times> table) list" where
  "sort_keys L [] = Inr []"
| "sort_keys L (f # fs) =
     (case time_key L (fst f) of
        Inl e \<Rightarrow> Inl e
      | Inr k \<Rightarrow> (case sort_keys L fs of Inl e \<Rightarrow> Inl e | Inr ks \<Rightarrow> Inr ((k, f) # ks)))"

definition is_snapshot_name :: "string \<Rightarrow> bool" where
  "is_snapshot_name f = (startswith f global_prefix \<and> endswith f ''.csv'')"

text \<open>Lines 23 and 24: the work list of the loop. The directory listing is given as the
  names with the tables \<^verbatim>\<open>pd.read_csv\<close> reads from them.\<close>

definition csv_files :: "pylib \<Rightarrow> (string \<times> table) list \<Rightarrow> error + (string \<times> table) list" where
  "csv_files L listing =
     (case sort_keys L (filter (\<lambda>f. is_snapshot_name (fst f)) listing) of
        Inl e \<Rightarrow> Inl e
      | Inr ks \<Rightarrow> Inr (map snd (sort_key fst ks)))"

definition output_name :: "string \<Rightarrow> string" where
  "output_name csv_file = sparse_prefix @ str_replace csv_file global_prefix []"

subsection \<open>Sample count\<close>

text \<open>Python's \<^verbatim>\<open>int\<close> on a float truncates toward zero. Line 40 applies it to the
  float product \<^verbatim>\<open>len(df_valid) * sample_ratio\<close>, which is the rounded product, not the
  exact one.\<close>

definition py_trunc :: "real \<Rightarrow> int" where
  "py_trunc r = (if 0 \<le> r then \<lfloor>r\<rfloor> else \<lceil>r\<rceil>)"

definition n_sample :: "pylib \<Rightarrow> config \<Rightarrow> nat \<Rightarrow> int" where
  "n_sample L cfg len_valid =
     (case sample_num cfg of
        Some k \<Rightarrow> min k (int len_valid)
      | None \<Rightarrow> max 1 (py_trunc (float_mul L (real len_valid) (sample_ratio cfg))))"

subsection \<open>Random draws\<close>

fun next_draw :: "nat list \<Rightarrow> nat \<times> nat list" where
  "next_draw [] = (0, [])"
| "next_draw (d # ds) = (d, ds)"

text \<open>\<open>k\<close> elements of \<open>pop\<close> without replacement, each chosen by one draw among those left.\<close>

fun draw_distinct :: "'a list \<Rightarrow> nat \<Rightarrow> nat list \<Rightarrow> 'a list \<times> nat list" where
  "draw_distinct pop 0 g = ([], g)"
| "draw_distinct pop (Suc k) g =
     (if pop = [] then ([], g)
      else (case next_draw g of (d, g') \<Rightarrow>
              (case draw_distinct (take (d mod length pop) pop @ drop (Suc (d mod length pop)) pop) k g' of
                 (rest, g'') \<Rightarrow> (pop ! (d mod length pop) # rest, g''))))"

text \<open>\<^verbatim>\<open>np.random.choice(pop, size=k, replace=False)\<close> on the global generator: raises when
  the population is smaller than \<open>k\<close> (an empty population with \<open>k > 0\<close> included).\<close>

definition np_random_choice :: "nat list \<Rightarrow> nat \<Rightarrow> nat list \<Rightarrow> error + (nat list \<times> nat list)" where
  "np_random_choice pop k g =
     (if length pop < k then Inl ValueError_choice else Inr (draw_distinct pop k g))"

text \<open>\<^verbatim>\<open>df.sample(n=n, random_state=seed)\<close>: \<open>n\<close> row positions without replacement from a
  generator of its own, seeded afresh; the global generator is not touched.\<close>

definition df_sample_seeded :: "pylib \<Rightarrow> nat \<Rightarrow> table \<Rightarrow> int \<Rightarrow> error + table" where
  "df_sample_seeded L seed df n =
     (if n < 0 \<or> int (length df) < n then Inl ValueError_sample
      else Inr (map ((!) df) (fst (draw_distinct [0..<length df] (nat n) (seeded_draws L seed)))))"

text \<open>\<^verbatim>\<open>bin_df.sample(1)\<close>: no \<^verbatim>\<open>random_state\<close>, so the one row comes from the global generator.\<close>

definition df_sample_one :: "'a list \<Rightarrow> nat list \<Rightarrow> 'a \<times> nat list" where
  "df_sample_one df g = (case next_draw g of (d, g') \<Rightarrow> (df ! (d mod length df), g'))"

subsection \<open>The Latin-hypercube strategy\<close>

definition col_min :: "real list \<Rightarrow> real" where
  "col_min xs = fold min (tl xs) (hd xs)"

definition col_max :: "real list \<Rightarrow> real" where
  "col_max xs = fold max (tl xs) (hd xs)"

definition dist2 :: "real \<times> real \<Rightarrow> real \<times> real \<Rightarrow> real" where
  "dist2 p q = (fst p - fst q) * (fst p - fst q) + (snd p - snd q) * (snd p - snd q)"

text \<open>\<^verbatim>\<open>KDTree(valid_coords).query(p)\<close>: the position of a coordinate nearest to \<open>p\<close>.
  Which of several equally near ones SciPy returns is not specified; the model takes the
  first. The squared distance orders as the distance does.\<close>

fun kd_query :: "(real \<times> real) list \<Rightarrow> real \<times> real \<Rightarrow> nat" where
  "kd_query [] p = 0"
| "kd_query [c] p = 0"
| "kd_query (c # cs) p =
     (if dist2 c p \<le> dist2 (cs ! kd_query cs p) p then 0 else Suc (kd_query cs p))"

text \<open>\<^verbatim>\<open>np.unique\<close>: the distinct values, ascending.\<close>

definition np_unique :: "nat list \<Rightarrow> nat list" where
  "np_unique xs = sort (remdups xs)"

text \<open>\<^verbatim>\<open>df.iloc[idxs]\<close>: the rows at the positions, in the order given; a position past the
  end raises.\<close>

definition iloc :: "table \<Rightarrow> nat list \<Rightarrow> error + table" where
  "iloc df idxs =
     (if list_all (\<lambda>i. i < length df) idxs then Inr (map ((!) df) idxs) else Inl IndexError)"

text \<open>Lines 45 to 62: the bounding box of the valid rows, the design mapped into it, the
  nearest valid row of every design point, and the distinct positions found.\<close>

definition lhs_unique_indices :: "pylib \<Rightarrow> table \<Rightarrow> nat \<Rightarrow> nat list" where
  "lhs_unique_indices L df_valid n =
     (let x_min = col_min (map x_m df_valid); x_max = col_max (map x_m df_valid);
          y_min = col_min (map y_m df_valid); y_max = col_max (map y_m df_valid);
          lhs_sample = map (\<lambda>i. (x_min + fst (lhs_unit L 42 n i) * (x_max - x_min),
                                   y_min + snd (lhs_unit L 42 n i) * (y_max - y_min))) [0..<n];
          valid_coords = map (\<lambda>r. (x_m r, y_m r)) df_valid;
          indices = map (kd_query valid_coords) lhs_sample
      in np_unique indices)"

text \<open>Lines 63 to 72: the backfill from the rows not yet selected, or the truncation.\<close>

definition lhs_indices ::
  "pylib \<Rightarrow> table \<Rightarrow> nat \<Rightarrow> nat list \<Rightarrow> error + (nat list \<times> nat list)" where
  "lhs_indices L df_valid n g =
     (let unique_indices = lhs_unique_indices L df_valid n
      in if length unique_indices < n
         then (case np_random_choice
                      (filter (\<lambda>i. i \<notin> set unique_indices) [0..<length df_valid])
                      (n - length unique_indices) g of
                 Inl e \<Rightarrow> Inl e
               | Inr (supplement_indices, g') \<Rightarrow> Inr (unique_indices @ supplement_indices, g'))
         else Inr (take n unique_indices, g))"

definition lhs_select ::
  "pylib \<Rightarrow> table \<Rightarrow> int \<Rightarrow> nat list \<Rightarrow> error + (table \<times> nat list)" where
  "lhs_select L df_valid n g =
     (if n < 0 then Inl ValueError_negative_dimensions
      else (case lhs_indices L df_valid (nat n) g of
              Inl e \<Rightarrow> Inl e
            | Inr (final_indices, g') \<Rightarrow>
                (case iloc df_valid final_indices of
                   Inl e \<Rightarrow> Inl e
                 | Inr df_sample \<Rightarrow> Inr (df_sample, g'))))"

subsection \<open>The uniform strategy\<close>

text \<open>\<^verbatim>\<open>int(np.sqrt(n))\<close> on a natural number: the integer square root.\<close>

primrec int_sqrt :: "nat \<Rightarrow> nat" where
  "int_sqrt 0 = 0"
| "int_sqrt (Suc n) =
     (if (int_sqrt n + 1) * (int_sqrt n + 1) \<le> Suc n then int_sqrt n + 1 else int_sqrt n)"

definition linspace :: "real \<Rightarrow> real \<Rightarrow> nat \<Rightarrow> real list" where
  "linspace a b num = map (\<lambda>i. a + real i * ((b - a) / real (num - 1))) [0..<num]"

definition searchsorted_left :: "real list \<Rightarrow> real \<Rightarrow> nat" where
  "searchsorted_left edges x = length (filter (\<lambda>e. e < x) edges)"

text \<open>\<^verbatim>\<open>pd.cut(col, bins=nb, labels=False)\<close>: it raises for fewer than one bin; otherwise
  it computes \<open>nb + 1\<close> edges of equal-width, right-closed intervals over the range of
  the column (the lowest edge moved down by 0.1 percent of the range; a constant column
  gets a range around its value instead) and labels each value with the position of its
  interval, \<^verbatim>\<open>edges.searchsorted(x, side="left") - 1\<close>. The edges are those of the library,
  rounding included; they enclose every value of the column, so no value is left
  unlabelled.\<close>

definition pd_cut :: "pylib \<Rightarrow> real list \<Rightarrow> nat \<Rightarrow> error + nat list" where
  "pd_cut L col nb =
     (if nb < 1 then Inl ValueError_bins
      else
        (let mn = col_min col; mx = col_max col;
             edges = cut_edges L mn mx nb
         in Inr (map (\<lambda>x. searchsorted_left edges x - 1) col)))"

text \<open>\<^verbatim>\<open>Series.unique()\<close>: the distinct values in the order of their first appearance.\<close>

fun unique_first :: "'a list \<Rightarrow> 'a list" where
  "unique_first [] = []"
| "unique_first (x # xs) = x # filter (\<lambda>y. y \<noteq> x) (unique_first xs)"

text \<open>Lines 86 to 91: the loop over the Y bins for one X bin. The rows carry their two
  bin labels; \<open>acc\<close> is the list \<^verbatim>\<open>df_sample\<close> of one-row frames.\<close>

fun uniform_inner ::
  "(row \<times> nat \<times> nat) list \<Rightarrow> int \<Rightarrow> nat \<Rightarrow> nat list \<Rightarrow> table \<Rightarrow> nat list \<Rightarrow> table \<times> nat list" where
  "uniform_inner binned n xb [] acc g = (acc, g)"
| "uniform_inner binned n xb (yb # ybs) acc g =
     (let bin_df = filter (\<lambda>r. fst (snd r) = xb \<and> snd (snd r) = yb) binned;
          step = (if length bin_df > 0
                  then (case df_sample_one bin_df g of (r, g') \<Rightarrow> (acc @ [fst r], g'))
                  else (acc, g))
      in if int (length (fst step)) \<ge> n then step
         else uniform_inner binned n xb ybs (fst step) (snd step))"

text \<open>Lines 85 to 93: the loop over the X bins.\<close>

fun uniform_outer ::
  "(row \<times> nat \<times> nat) list \<Rightarrow> int \<Rightarrow> nat list \<Rightarrow> nat list \<Rightarrow> table \<Rightarrow> nat list \<Rightarrow> table \<times> nat list" where
  "uniform_outer binned n [] ybs acc g = (acc, g)"
| "uniform_outer binned n (xb # xbs) ybs acc g =
     (let step = uniform_inner binned n xb ybs acc g
      in if int (length (fst step)) \<ge> n then step
         else uniform_outer binned n xbs ybs (fst step) (snd step))"

definition uniform_select ::
  "pylib \<Rightarrow> table \<Rightarrow> int \<Rightarrow> nat list \<Rightarrow> error + (table \<times> nat list)" where
  "uniform_select L df_valid n g =
     (if n < 0 then Inl ValueError_nan_to_int
      else (case pd_cut L (map x_m df_valid) (int_sqrt (nat n)) of
              Inl e \<Rightarrow> Inl e
            | Inr x_bin \<Rightarrow>
                (case pd_cut L (map y_m df_valid) (int_sqrt (nat n)) of
                   Inl e \<Rightarrow> Inl e
                 | Inr y_bin \<Rightarrow>
                     (let step = uniform_outer (zip df_valid (zip x_bin y_bin)) n
                                   (unique_first x_bin) (unique_first y_bin) [] g
                      in if fst step = [] then Inl ValueError_concat else Inr step))))"

subsection \<open>One snapshot, and the loop over the snapshots\<close>

text \<open>Lines 43 to 96: the strategy chain. Only the Latin-hypercube branch binds the
  bounding box \<^verbatim>\<open>x_min, x_max, y_min, y_max\<close> that line 105 prints; the result carries it
  as an option, None where the names are unbound.\<close>

definition select_rows ::
  "pylib \<Rightarrow> config \<Rightarrow> table \<Rightarrow> int \<Rightarrow> nat list \<Rightarrow>
     error + (table \<times> (real \<times> real \<times> real \<times> real) option \<times> nat list)" where
  "select_rows L cfg df_valid n g =
     (if sample_strategy cfg = ''lhs'' then
        (case lhs_select L df_valid n g of
           Inl e \<Rightarrow> Inl e
         | Inr (df_sample, g') \<Rightarrow>
             Inr (df_sample,
                  Some (col_min (map x_m df_valid), col_max (map x_m df_valid),
                        col_min (map y_m df_valid), col_max (map y_m df_valid)), g'))
      else if sample_strategy cfg = ''random'' then
        (case df_sample_seeded L 42 df_valid n of
           Inl e \<Rightarrow> Inl e
         | Inr df_sample \<Rightarrow> Inr (df_sample, None, g))
      else if sample_strategy cfg = ''uniform'' then
        (case uniform_select L df_valid n g of
           Inl e \<Rightarrow> Inl e
         | Inr (df_sample, g') \<Rightarrow> Inr (df_sample, None, g'))
      else Inl ValueError_strategy)"

text \<open>Line 30: the rows at or above the minimum concentration, in their order.\<close>

definition df_valid_of :: "config \<Rightarrow> table \<Rightarrow> table" where
  "df_valid_of cfg df = filter (\<lambda>r. conc r \<ge> min_concentration cfg) df"

text \<open>The body of the loop, lines 27 to 105, for one file. The result is the exception
  that leaves the body, if any, and the world at that moment.\<close>

definition process_file ::
  "pylib \<Rightarrow> config \<Rightarrow> string \<times> table \<Rightarrow> world \<Rightarrow> error option \<times> world" where
  "process_file L cfg f w =
     (let csv_file = fst f;
          df_valid = df_valid_of cfg (snd f)
      in if length df_valid = 0
         then (None, w\<lparr>stdout := stdout w @ [Warn csv_file]\<rparr>)
         else
           (case select_rows L cfg df_valid (n_sample L cfg (length df_valid)) (np_random w) of
              Inl e \<Rightarrow> (Some e, w)
            | Inr (df_sample, bbox, g') \<Rightarrow>
                (let w' = w\<lparr>np_random := g',
                            out_files := out_files w @ [(output_name csv_file, df_sample)],
                            stdout := stdout w @ [Done csv_file (length df_valid) (length df_sample)]\<rparr>
                 in (case bbox of
                       None \<Rightarrow> (Some UnboundLocalError, w')
                     | Some (x0, x1, y0, y1) \<Rightarrow>
                         (None, w'\<lparr>stdout := stdout w' @ [BBox x0 x1 y0 y1]\<rparr>)))))"

fun process_files ::
  "pylib \<Rightarrow> config \<Rightarrow> (string \<times> table) list \<Rightarrow> world \<Rightarrow> error option \<times> world" where
  "process_files L cfg [] w = (None, w)"
| "process_files L cfg (f # fs) w =
     (case process_file L cfg f w of
        (Some e, w') \<Rightarrow> (Some e, w')
      | (None, w') \<Rightarrow> process_files L cfg fs w')"

definition sample_sparse_data ::
  "pylib \<Rightarrow> config \<Rightarrow> (string \<times> table) list \<Rightarrow> world \<Rightarrow> error option \<times> world" where
  "sample_sparse_data L cfg listing w =
     (let w0 = w\<lparr>made_dirs := made_dirs w @ [output_sparse_dir cfg]\<rparr>
      in (case csv_files L listing of
            Inl e \<Rightarrow> (Some e, w0)
          | Inr files \<Rightarrow> process_files L cfg files w0))"

section \<open>simulate.py: the field generator\<close>

subsection \<open>Scenario, evaluator, world\<close>

text \<open>The arguments of \<^verbatim>\<open>create_contamination_scenario\<close>. The source's Greek parameter
  names are spelled out.\<close>

record scenario =
  scene_name :: string
  K_aa :: real
  K_bb :: real
  theta :: real
  alpha_L :: real
  alpha_T :: real
  x_range :: "real \<times> real"
  y_range :: "real \<times> real"
  grid_num :: int
  sources :: "(real \<times> real) list"
  c0_list :: "real list"
  Qa_list :: "real list"
  stress_cycle_d :: int
  obs_times :: "real list"

text \<open>The keyword arguments of one call of the external evaluator \<^verbatim>\<open>adepy.uniform.point2\<close>,
  the grid arrays apart.\<close>

record point2_args =
  p_t :: real
  p_v :: real
  p_al :: real
  p_ah :: real
  p_n :: real
  p_xc :: real
  p_yc :: real
  p_Qa :: real
  p_c0 :: real

type_synonym array2 = "real list list"

text \<open>
  What the generator takes from outside the repository: the analytical point-source
  solution, a pure function giving the concentration at one point \<open>(x, y)\<close> (applied to
  the grid arrays it works element by element), and whether Matplotlib's \<^verbatim>\<open>contourf\<close>
  raises on a field and a list of levels.
\<close>

record genlib =
  point2 :: "point2_args \<Rightarrow> real \<Rightarrow> real \<Rightarrow> real"
  contourf_raises :: "array2 \<Rightarrow> real list \<Rightarrow> error option"

datatype gen_file =
    ParamLog bool
  | CsvTable real table
  | ContourPlot real
  | SummaryPlot

text \<open>Directories made, files written (the parameter log with whether it was completed,
  the tables and plots with their observation time) and the calls made to the evaluator.\<close>

record gen_world =
  gen_dirs :: "string list"
  gen_files :: "gen_file list"
  point2_calls :: "point2_args list"

subsection \<open>Grid and fields\<close>

text \<open>\<^verbatim>\<open>np.meshgrid(xs, ys)\<close>: two arrays with one row per element of \<open>ys\<close> and one column
  per element of \<open>xs\<close>.\<close>

definition meshgrid :: "real list \<Rightarrow> real list \<Rightarrow> array2 \<times> array2" where
  "meshgrid xs ys = (map (\<lambda>y. xs) ys, map (\<lambda>y. map (\<lambda>x. y) xs) ys)"

definition zeros_like :: "array2 \<Rightarrow> array2" where
  "zeros_like a = map (map (\<lambda>_. 0)) a"

definition add_arrays :: "array2 \<Rightarrow> array2 \<Rightarrow> array2" where
  "add_arrays a b = map2 (map2 (+)) a b"

definition point2_array :: "genlib \<Rightarrow> point2_args \<Rightarrow> array2 \<Rightarrow> array2 \<Rightarrow> array2" where
  "point2_array G a x_grid y_grid = map2 (map2 (point2 G a)) x_grid y_grid"

definition source_args ::
  "scenario \<Rightarrow> real \<Rightarrow> real \<Rightarrow> (real \<times> real) \<times> real \<times> real \<Rightarrow> point2_args" where
  "source_args sc v t s =
     \<lparr>p_t = t, p_v = v, p_al = alpha_L sc, p_ah = alpha_T sc, p_n = theta sc,
      p_xc = fst (fst s), p_yc = snd (fst s), p_Qa = snd (snd s), p_c0 = fst (snd s)\<rparr>"

text \<open>Lines 108 to 114: the loop over \<^verbatim>\<open>zip(sources, c0_list, Qa_list)\<close>, adding each
  source's field to \<^verbatim>\<open>total_conc\<close> and recording the call.\<close>

fun superpose ::
  "genlib \<Rightarrow> scenario \<Rightarrow> array2 \<Rightarrow> array2 \<Rightarrow> real \<Rightarrow> real \<Rightarrow>
     ((real \<times> real) \<times> real \<times> real) list \<Rightarrow> array2 \<times> point2_args list \<Rightarrow> array2 \<times> point2_args list" where
  "superpose G sc x_grid y_grid v t [] st = st"
| "superpose G sc x_grid y_grid v t (s # ss) st =
     superpose G sc x_grid y_grid v t ss
       (add_arrays (fst st) (point2_array G (source_args sc v t s) x_grid y_grid),
        snd st @ [source_args sc v t s])"

text \<open>Lines 103 to 114: the field of one observation time.\<close>

definition total_conc ::
  "genlib \<Rightarrow> scenario \<Rightarrow> array2 \<Rightarrow> array2 \<Rightarrow> real \<Rightarrow> real \<Rightarrow> point2_args list \<Rightarrow>
     array2 \<times> point2_args list" where
  "total_conc G sc x_grid y_grid v t calls =
     (if t = 0 then (zeros_like x_grid, calls)
      else superpose G sc x_grid y_grid v t
             (zip (sources sc) (zip (c0_list sc) (Qa_list sc))) (zeros_like x_grid, calls))"

text \<open>Lines 101 to 115: the loop over the observation times.\<close>

fun all_concentrations ::
  "genlib \<Rightarrow> scenario \<Rightarrow> array2 \<Rightarrow> array2 \<Rightarrow> real \<Rightarrow> real list \<Rightarrow> point2_args list \<Rightarrow>
     array2 list \<times> point2_args list" where
  "all_concentrations G sc x_grid y_grid v [] calls = ([], calls)"
| "all_concentrations G sc x_grid y_grid v (t # ts) calls =
     (case total_conc G sc x_grid y_grid v t calls of
        (field, calls') \<Rightarrow>
          (case all_concentrations G sc x_grid y_grid v ts calls' of
             (rest, calls'') \<Rightarrow> (field # rest, calls'')))"

subsection \<open>Writing the results\<close>

text \<open>Lines 128 to 135: the table of one field, the arrays flattened row by row.\<close>

definition global_df :: "array2 \<Rightarrow> array2 \<Rightarrow> array2 \<Rightarrow> table" where
  "global_df x_grid y_grid field =
     map (\<lambda>p. \<lparr>x_m = fst p, y_m = fst (snd p), conc = snd (snd p)\<rparr>)
         (zip (concat x_grid) (zip (concat y_grid) (concat field)))"

text \<open>Lines 123 to 177: one table and one plot per observation time, the table first.\<close>

fun save_all ::
  "genlib \<Rightarrow> array2 \<Rightarrow> array2 \<Rightarrow> real list \<Rightarrow> (real \<times> array2) list \<Rightarrow> gen_world \<Rightarrow>
     error option \<times> gen_world" where
  "save_all G x_grid y_grid levels [] w = (None, w)"
| "save_all G x_grid y_grid levels (tf # tfs) w =
     (let w' = w\<lparr>gen_files := gen_files w @ [CsvTable (fst tf) (global_df x_grid y_grid (snd tf))]\<rparr>
      in (case contourf_raises G (snd tf) levels of
            Some e \<Rightarrow> (Some e, w')
          | None \<Rightarrow>
              save_all G x_grid y_grid levels tfs
                (w'\<lparr>gen_files := gen_files w' @ [ContourPlot (fst tf)]\<rparr>)))"

definition np_linspace :: "real \<Rightarrow> real \<Rightarrow> int \<Rightarrow> error + real list" where
  "np_linspace a b num = (if num < 0 then Inl ValueError_linspace else Inr (linspace a b (nat num)))"

text \<open>\<^verbatim>\<open>np.max\<close> of an array or list; it raises on an empty one.\<close>

definition np_max :: "real list \<Rightarrow> error + real" where
  "np_max xs = (if xs = [] then Inl ValueError_empty_max else Inr (col_max xs))"

fun np_max_each :: "array2 list \<Rightarrow> error + real list" where
  "np_max_each [] = Inr []"
| "np_max_each (f # fs) =
     (case np_max (concat f) of
        Inl e \<Rightarrow> Inl e
      | Inr m \<Rightarrow> (case np_max_each fs of Inl e \<Rightarrow> Inl e | Inr ms \<Rightarrow> Inr (m # ms)))"

subsection \<open>The generator\<close>

text \<open>Lines 93 to 95: the two grid arrays.\<close>

definition make_grid :: "scenario \<Rightarrow> error + (array2 \<times> array2)" where
  "make_grid sc =
     (case np_linspace (fst (x_range sc)) (snd (x_range sc)) (grid_num sc) of
        Inl e \<Rightarrow> Inl e
      | Inr x_grid_arr \<Rightarrow>
          (case np_linspace (fst (y_range sc)) (snd (y_range sc)) (grid_num sc) of
             Inl e \<Rightarrow> Inl e
           | Inr y_grid_arr \<Rightarrow> Inr (meshgrid x_grid_arr y_grid_arr)))"

text \<open>Lines 118 to 200: the common colour scale, the tables and plots, the summary plot.\<close>

definition save_results ::
  "genlib \<Rightarrow> scenario \<Rightarrow> array2 \<Rightarrow> array2 \<Rightarrow> array2 list \<Rightarrow> gen_world \<Rightarrow> error option \<times> gen_world" where
  "save_results G sc x_grid y_grid all_conc w =
     (case np_max_each all_conc of
        Inl e \<Rightarrow> (Some e, w)
      | Inr maxima \<Rightarrow>
          (case np_max maxima of
             Inl e \<Rightarrow> (Some e, w)
           | Inr m \<Rightarrow>
               (case save_all G x_grid y_grid (linspace 0 (m * 1.1) 50)
                       (zip (obs_times sc) all_conc) w of
                  (Some e, w') \<Rightarrow> (Some e, w')
                | (None, w') \<Rightarrow> (None, w'\<lparr>gen_files := gen_files w' @ [SummaryPlot]\<rparr>))))"

definition create_contamination_scenario ::
  "genlib \<Rightarrow> scenario \<Rightarrow> gen_world \<Rightarrow> error option \<times> gen_world" where
  "create_contamination_scenario G sc w =
     (if length (c0_list sc) \<noteq> length (sources sc) then (Some ValueError_c0_length, w)
      else if length (Qa_list sc) \<noteq> length (sources sc) then (Some ValueError_Qa_length, w)
      else
        (let w1 = w\<lparr>gen_dirs := gen_dirs w @ [scene_name sc @ ''/csv_results'',
                                               scene_name sc @ ''/plot_results'']\<rparr>
         in if theta sc = 0
            then (Some ZeroDivisionError, w1\<lparr>gen_files := gen_files w1 @ [ParamLog False]\<rparr>)
            else
              (let w2 = w1\<lparr>gen_files := gen_files w1 @ [ParamLog True]\<rparr>
               in (case make_grid sc of
                     Inl e \<Rightarrow> (Some e, w2)
                   | Inr (x_grid, y_grid) \<Rightarrow>
                       (let v = K_aa sc / theta sc;
                            computed = all_concentrations G sc x_grid y_grid v (obs_times sc)
                                         (point2_calls w2)
                        in save_results G sc x_grid y_grid (fst computed)
                             (w2\<lparr>point2_calls := snd computed\<rparr>))))))"

section \<open>Notions used to state the properties\<close>

text \<open>The tables an invocation has added to the world.\<close>

definition written_by :: "world \<Rightarrow> world \<Rightarrow> (string \<times> table) list" where
  "written_by w w' = drop (length (out_files w)) (out_files w')"

text \<open>The snapshots the console shows as dealt with: skipped with a warning, or sampled
  and written.\<close>

fun handled :: "message list \<Rightarrow> string list" where
  "handled [] = []"
| "handled (Warn f # ms) = f # handled ms"
| "handled (Done f a b # ms) = f # handled ms"
| "handled (BBox a b c d # ms) = handled ms"

text \<open>
  The uniform strategy in the words of the specification: the valid rows with their two
  bin labels, the non-empty cells in the order the loops visit them (all Y bins of an X
  bin before the next X bin, bins in order of first appearance), and one row drawn from
  each of a list of cells in turn. To be compared with \<open>uniform_select\<close>.
\<close>

definition binned_rows :: "pylib \<Rightarrow> table \<Rightarrow> int \<Rightarrow> (row \<times> nat \<times> nat) list" where
  "binned_rows L df_valid n =
     (case pd_cut L (map x_m df_valid) (int_sqrt (nat n)) of
        Inl e \<Rightarrow> []
      | Inr x_bin \<Rightarrow>
          (case pd_cut L (map y_m df_valid) (int_sqrt (nat n)) of
             Inl e \<Rightarrow> []
           | Inr y_bin \<Rightarrow> zip df_valid (zip x_bin y_bin)))"

definition cell_rows :: "(row \<times> nat \<times> nat) list \<Rightarrow> nat \<times> nat \<Rightarrow> (row \<times> nat \<times> nat) list" where
  "cell_rows binned c = filter (\<lambda>r. snd r = c) binned"

definition cells_in_order :: "(row \<times> nat \<times> nat) list \<Rightarrow> nat list \<Rightarrow> nat list \<Rightarrow> (nat \<times> nat) list" where
  "cells_in_order binned xbs ybs =
     filter (\<lambda>c. cell_rows binned c \<noteq> []) (List.product xbs ybs)"

definition visited_cells :: "pylib \<Rightarrow> table \<Rightarrow> int \<Rightarrow> (nat \<times> nat) list" where
  "visited_cells L df_valid n =
     cells_in_order (binned_rows L df_valid n)
       (unique_first (map (\<lambda>r. fst (snd r)) (binned_rows L df_valid n)))
       (unique_first (map (\<lambda>r. snd (snd r)) (binned_rows L df_valid n)))"

fun pick_cells ::
  "(row \<times> nat \<times> nat) list \<Rightarrow> (nat \<times> nat) list \<Rightarrow> nat list \<Rightarrow> table \<times> nat list" where
  "pick_cells binned [] g = ([], g)"
| "pick_cells binned (c # cs) g =
     (case df_sample_one (cell_rows binned c) g of
        (r, g') \<Rightarrow> (case pick_cells binned cs g' of (rs, g'') \<Rightarrow> (fst r # rs, g'')))"

text \<open>The sample counts with which a strategy selects rows rather than raises.\<close>

definition count_in_range :: "pylib \<Rightarrow> config \<Rightarrow> table \<Rightarrow> bool" where
  "count_in_range L cfg df =
     (let valid = length (df_valid_of cfg df); n = n_sample L cfg valid
      in if sample_strategy cfg = ''uniform'' then 1 \<le> n
         else (sample_strategy cfg = ''lhs'' \<or> sample_strategy cfg = ''random'')
              \<and> 0 \<le> n \<and> n \<le> int valid)"

text \<open>What a written table is under each strategy, for the snapshot it was sampled from:
  exactly \<open>n\<close> rows under the Latin-hypercube and the random strategy; under the uniform
  strategy one row from each of the first non-empty cells in visiting order, as many as
  there are such cells and at most \<open>n\<close>.\<close>

definition rows_as_sampled :: "pylib \<Rightarrow> config \<Rightarrow> table \<Rightarrow> table \<Rightarrow> bool" where
  "rows_as_sampled L cfg df rows =
     (let valid = df_valid_of cfg df; n = n_sample L cfg (length valid)
      in length rows \<le> length valid \<and>
         (if sample_strategy cfg = ''uniform''
          then length rows = min (nat n) (length (visited_cells L valid n)) \<and>
               1 \<le> length rows \<and>
               list_all (\<lambda>k. (rows ! k, visited_cells L valid n ! k) \<in> set (binned_rows L valid n))
                        [0..<length rows]
          else int (length rows) = n))"

text \<open>The files a generator run has added to the world, and the evaluator calls it made.\<close>

definition gen_written :: "gen_world \<Rightarrow> gen_world \<Rightarrow> gen_file list" where
  "gen_written w w' = drop (length (gen_files w)) (gen_files w')"

definition gen_called :: "gen_world \<Rightarrow> gen_world \<Rightarrow> point2_args list" where
  "gen_called w w' = drop (length (point2_calls w)) (point2_calls w')"


text \<open>The integer time in a file name, where the sort key exists.\<close>

definition time_of :: "pylib \<Rightarrow> string \<Rightarrow> int" where
  "time_of L x = (case time_key L x of Inr k \<Rightarrow> k | Inl e \<Rightarrow> 0)"



section \<open>Concrete inputs\<close>

text \<open>A stand-in for the library on which the model can be run: \<^verbatim>\<open>int\<close> on an optional
  minus sign and ASCII digits, a short stream of draws, design points on the diagonal, the
  exact product, and the bin edges computed exactly.\<close>

definition cut_adjust :: "real \<Rightarrow> real" where
  "cut_adjust m = (if m \<noteq> 0 then 0.001 * \<bar>m\<bar> else 0.001)"

definition exact_cut_edges :: "real \<Rightarrow> real \<Rightarrow> nat \<Rightarrow> real list" where
  "exact_cut_edges mn mx nb =
     (if mn = mx
      then linspace (mn - cut_adjust mn) (mx + cut_adjust mx) (nb + 1)
      else (linspace mn mx (nb + 1))[0 := mn - (mx - mn) * 0.001])"

fun digits_val :: "string \<Rightarrow> nat \<Rightarrow> nat option" where
  "digits_val [] acc = Some acc"
| "digits_val (c # cs) acc =
     (if (48::nat) \<le> of_char c \<and> of_char c \<le> (57::nat)
      then digits_val cs (10 * acc + (of_char c - 48)) else None)"

definition ascii_int :: "string \<Rightarrow> int option" where
  "ascii_int s =
     (case s of
        [] \<Rightarrow> None
      | c # cs \<Rightarrow>
          (if c = CHR ''-''
           then (if cs = [] then None else map_option (\<lambda>n. - int n) (digits_val cs 0))
           else map_option int (digits_val s 0)))"

definition lib0 :: pylib where
  "lib0 = \<lparr>py_int = ascii_int, seeded_draws = (\<lambda>seed. [seed, 7, 3]),
           lhs_unit = (\<lambda>seed n i. (real i / real n, real i / real n)),
           float_mul = (\<lambda>a b. a * b), cut_edges = exact_cut_edges\<rparr>"

definition snapshot_name :: "string \<Rightarrow> string" where
  "snapshot_name t = global_prefix @ t @ day_csv"

definition world0 :: world where
  "world0 = \<lparr>made_dirs = [], out_files = [], stdout = [], np_random = []\<rparr>"

definition mk_row :: "real \<Rightarrow> real \<Rightarrow> real \<Rightarrow> row" where
  "mk_row x y c = \<lparr>x_m = x, y_m = y, conc = c\<rparr>"

definition cfg0 :: "string \<Rightarrow> config" where
  "cfg0 strategy = \<lparr>output_sparse_dir = ''out'', sample_strategy = strategy,
                    sample_ratio = 0.01, sample_num = Some 2, min_concentration = 0.1\<rparr>"

definition table3 :: table where
  "table3 = [mk_row 0 0 1, mk_row 1 1 2, mk_row 2 2 3, mk_row 0 5 0]"

definition table_low :: table where
  "table_low = [mk_row 0 0 0, mk_row 1 1 0.05]"

text \<open>Four valid rows in four different cells of a two-by-two binning, and a fixed count of 4.\<close>

definition table4 :: table where
  "table4 = [mk_row 0 0 1, mk_row 3 0 2, mk_row 0 3 3, mk_row 3 3 4, mk_row 1 1 0]"

definition cfg4 :: "string \<Rightarrow> config" where
  "cfg4 strategy = \<lparr>output_sparse_dir = ''out'', sample_strategy = strategy,
                    sample_ratio = 0.5, sample_num = Some 4, min_concentration = 0.1\<rparr>"

text \<open>A library whose design points all fall on one corner, so that the backfill runs.\<close>

definition lib1 :: pylib where
  "lib1 = lib0\<lparr>lhs_unit := (\<lambda>seed n i. (0, 0))\<rparr>"

text \<open>A stand-in evaluator, a two-source scenario on a two-by-two grid, an empty world.\<close>

definition G0 :: genlib where
  "G0 = \<lparr>point2 = (\<lambda>a x y. p_c0 a * p_Qa a + p_xc a * x + p_t a * y),
         contourf_raises = (\<lambda>field levels. None)\<rparr>"

definition scenario0 :: scenario where
  "scenario0 = \<lparr>scene_name = ''s'', K_aa = 1, K_bb = 0, theta = 0.5, alpha_L = 40, alpha_T = 8,
                x_range = (0, 10), y_range = (0, 20), grid_num = 2,
                sources = [(1, 2), (3, 4)], c0_list = [100, 150], Qa_list = [0.5, 0.25],
                stress_cycle_d = 365, obs_times = [0, 2]\<rparr>"

definition gen_world0 :: gen_world where
  "gen_world0 = \<lparr>gen_dirs = [], gen_files = [], point2_calls = []\<rparr>"

section \<open>Properties of the sampler\<close>

subsection \<open>Draws, nearest rows, the Latin-hypercube positions\<close>

lemma remove_nth_set: "set (take i pop @ drop (Suc i) pop) \<subseteq> set pop"
  by (auto dest: in_set_takeD in_set_dropD)

lemma remove_nth_distinct: "distinct pop \<Longrightarrow> distinct (take i pop @ drop (Suc i) pop)"
  by (metis append_take_drop_id distinct_append distinct_drop drop_Suc tl_drop set_subset_Cons
        disjoint_iff in_set_dropD distinct_take set_take_disj_set_drop_if_distinct le_SucI order_refl)

lemma remove_nth_notin:
  "distinct pop \<Longrightarrow> i < length pop \<Longrightarrow> pop ! i \<notin> set (take i pop @ drop (Suc i) pop)"
  by (metis Un_iff distinct_take distinct_drop id_take_nth_drop distinct_append
       disjoint_iff distinct.simps(2) list.set_intros(1) set_append not_distinct_conv_prefix)

lemma draw_distinct_set: "set (fst (draw_distinct pop k g)) \<subseteq> set pop"
proof (induction k arbitrary: pop g)
  case 0
  show ?case by simp
next
  case (Suc k)
  show ?case
  proof (cases "pop = []")
    case True
    then show ?thesis by simp
  next
    case False
    obtain d g' where nd: "next_draw g = (d, g')" by (cases "next_draw g")
    let ?i = "d mod length pop"
    obtain rest g'' where dr: "draw_distinct (take ?i pop @ drop (Suc ?i) pop) k g' = (rest, g'')"
      by (cases "draw_distinct (take ?i pop @ drop (Suc ?i) pop) k g'")
    have "set rest \<subseteq> set pop"
      using Suc.IH [of "take ?i pop @ drop (Suc ?i) pop" g'] dr remove_nth_set [of ?i pop] by auto
    moreover have "pop ! ?i \<in> set pop" using False by simp
    ultimately show ?thesis using False nd dr by simp
  qed
qed

lemma draw_distinct_distinct: "distinct pop \<Longrightarrow> distinct (fst (draw_distinct pop k g))"
proof (induction k arbitrary: pop g)
  case 0
  show ?case by simp
next
  case (Suc k)
  show ?case
  proof (cases "pop = []")
    case True
    then show ?thesis by simp
  next
    case False
    obtain d g' where nd: "next_draw g = (d, g')" by (cases "next_draw g")
    let ?i = "d mod length pop"
    let ?pop' = "take ?i pop @ drop (Suc ?i) pop"
    obtain rest g'' where dr: "draw_distinct ?pop' k g' = (rest, g'')"
      by (cases "draw_distinct ?pop' k g'")
    have i: "?i < length pop" using False by simp
    have "distinct rest"
      using Suc.IH [of ?pop' g'] dr remove_nth_distinct [OF Suc.prems] by auto
    moreover have "set rest \<subseteq> set ?pop'"
      using draw_distinct_set [of ?pop' k g'] dr by simp
    then have "pop ! ?i \<notin> set rest"
      using remove_nth_notin [OF Suc.prems i] by blast
    ultimately show ?thesis using False nd dr by simp
  qed
qed

lemma draw_distinct_length: "k \<le> length pop \<Longrightarrow> length (fst (draw_distinct pop k g)) = k"
proof (induction k arbitrary: pop g)
  case 0
  show ?case by simp
next
  case (Suc k)
  then have ne: "pop \<noteq> []" by auto
  obtain d g' where nd: "next_draw g = (d, g')" by (cases "next_draw g")
  let ?i = "d mod length pop"
  let ?pop' = "take ?i pop @ drop (Suc ?i) pop"
  obtain rest g'' where dr: "draw_distinct ?pop' k g' = (rest, g'')"
    by (cases "draw_distinct ?pop' k g'")
  have i: "?i < length pop" using ne by simp
  have "length ?pop' = length pop - 1" using i by auto
  then have "k \<le> length ?pop'" using Suc.prems by simp
  then have "length rest = k" using Suc.IH [of ?pop' g'] dr by simp
  then show ?case using ne nd dr by simp
qed

lemma kd_query_less: "cs \<noteq> [] \<Longrightarrow> kd_query cs p < length cs"
  by (induction cs p rule: kd_query.induct) auto

lemma kd_query_nearest: "c \<in> set cs \<Longrightarrow> dist2 (cs ! kd_query cs p) p \<le> dist2 c p"
  by (induction cs p rule: kd_query.induct) (auto split: if_splits)

lemma np_unique_distinct: "distinct (np_unique xs)"
  by (simp add: np_unique_def)

lemma np_unique_set: "set (np_unique xs) = set xs"
  by (simp add: np_unique_def)

lemma np_unique_length: "length (np_unique xs) \<le> length xs"
  by (simp add: np_unique_def length_remdups_leq)

lemma complement_length:
  assumes "distinct us" "set us \<subseteq> {0..<m}"
  shows "length (filter (\<lambda>i. i \<notin> set us) [0..<m]) = m - length us"
proof -
  have "length (filter (\<lambda>i. i \<notin> set us) [0..<m]) = card ({0..<m} - set us)"
    by (simp add: distinct_length_filter set_diff_eq Int_def) (metis (no_types, lifting) Collect_cong atLeastLessThan_iff)
  also have "\<dots> = card {0..<m} - card (set us)"
    using assms(2) by (simp add: card_Diff_subset)
  also have "\<dots> = m - length us"
    using assms(1) by (simp add: distinct_card)
  finally show ?thesis .
qed

lemma lhs_unique_props:
  assumes "df_valid \<noteq> []"
  shows "distinct (lhs_unique_indices L df_valid n)"
    and "set (lhs_unique_indices L df_valid n) \<subseteq> {0..<length df_valid}"
    and "length (lhs_unique_indices L df_valid n) \<le> n"
proof -
  show "distinct (lhs_unique_indices L df_valid n)"
    by (simp add: lhs_unique_indices_def Let_def np_unique_distinct)
  have "kd_query (map (\<lambda>r. (x_m r, y_m r)) df_valid) p < length df_valid" for p
    using kd_query_less [of "map (\<lambda>r. (x_m r, y_m r)) df_valid" p] assms by simp
  then show "set (lhs_unique_indices L df_valid n) \<subseteq> {0..<length df_valid}"
    by (auto simp: lhs_unique_indices_def Let_def np_unique_set)
  show "length (lhs_unique_indices L df_valid n) \<le> n"
    using np_unique_length by (simp add: lhs_unique_indices_def Let_def le_trans [OF np_unique_length])
qed

lemma lhs_indices_props:
  assumes ne: "df_valid \<noteq> []" and res: "lhs_indices L df_valid n g = Inr (idxs, g')"
  shows "distinct idxs \<and> set idxs \<subseteq> {0..<length df_valid} \<and> length idxs = n"
proof (cases "length (lhs_unique_indices L df_valid n) < n")
  case True
  let ?U = "lhs_unique_indices L df_valid n"
  let ?pop = "filter (\<lambda>i. i \<notin> set ?U) [0..<length df_valid]"
  let ?k = "n - length ?U"
  from res True obtain sup where
    ch: "np_random_choice ?pop ?k g = Inr (sup, g')" and idxs: "idxs = ?U @ sup"
    by (auto simp: lhs_indices_def Let_def split: sum.splits)
  from ch have k: "?k \<le> length ?pop" and sup: "sup = fst (draw_distinct ?pop ?k g)"
    by (auto simp: np_random_choice_def split: if_splits)
  have sub: "set sup \<subseteq> set ?pop" using draw_distinct_set [of ?pop ?k g] sup by simp
  have dis: "distinct sup" using draw_distinct_distinct [of ?pop ?k g] sup by simp
  have len: "length sup = ?k" using draw_distinct_length [OF k, of g] sup by simp
  have "distinct idxs"
    using lhs_unique_props(1) [OF ne, of L n] dis sub idxs by auto
  moreover have "set idxs \<subseteq> {0..<length df_valid}"
    using lhs_unique_props(2) [OF ne, of L n] sub idxs by auto
  moreover have "length idxs = n" using len True idxs by simp
  ultimately show ?thesis by simp
next
  case False
  then have idxs: "idxs = take n (lhs_unique_indices L df_valid n)"
    using res by (simp add: lhs_indices_def Let_def)
  have "distinct idxs" using lhs_unique_props(1) [OF ne, of L n] idxs by simp
  moreover have "set idxs \<subseteq> {0..<length df_valid}"
    using lhs_unique_props(2) [OF ne, of L n] idxs by (auto dest: in_set_takeD)
  moreover have "length idxs = n" using False idxs by simp
  ultimately show ?thesis by simp
qed

lemma lhs_indices_total:
  assumes ne: "df_valid \<noteq> []" and n: "n \<le> length df_valid"
  shows "\<exists>idxs g'. lhs_indices L df_valid n g = Inr (idxs, g')"
proof (cases "length (lhs_unique_indices L df_valid n) < n")
  case True
  let ?U = "lhs_unique_indices L df_valid n"
  have "length (filter (\<lambda>i. i \<notin> set ?U) [0..<length df_valid]) = length df_valid - length ?U"
    using complement_length [OF lhs_unique_props(1) [OF ne] lhs_unique_props(2) [OF ne]] .
  then have "\<not> length (filter (\<lambda>i. i \<notin> set ?U) [0..<length df_valid]) < n - length ?U"
    using n by simp
  then show ?thesis
    using True by (simp add: lhs_indices_def Let_def np_random_choice_def split: prod.splits)
next
  case False
  then show ?thesis by (simp add: lhs_indices_def Let_def)
qed

lemma lhs_indices_error:
  assumes ne: "df_valid \<noteq> []" and n: "length df_valid < n"
  shows "lhs_indices L df_valid n g = Inl ValueError_choice"
proof -
  let ?U = "lhs_unique_indices L df_valid n"
  have u: "length ?U \<le> length df_valid"
    using lhs_unique_props(1,2) [OF ne, of L n]
    by (metis card_atLeastLessThan card_mono diff_zero distinct_card finite_atLeastLessThan)
  have "length (filter (\<lambda>i. i \<notin> set ?U) [0..<length df_valid]) = length df_valid - length ?U"
    using complement_length [OF lhs_unique_props(1) [OF ne] lhs_unique_props(2) [OF ne]] .
  then have "length (filter (\<lambda>i. i \<notin> set ?U) [0..<length df_valid]) < n - length ?U"
    using n u by simp
  then show ?thesis
    using n u by (simp add: lhs_indices_def Let_def np_random_choice_def)
qed

subsection \<open>The uniform strategy\<close>

lemma df_sample_one_mem: "df \<noteq> [] \<Longrightarrow> fst (df_sample_one df g) \<in> set df"
  by (cases "next_draw g") (simp add: df_sample_one_def)

lemma uniform_inner_set:
  "set (fst (uniform_inner binned n xb ybs acc g)) \<subseteq> set acc \<union> fst ` set binned"
proof (induction ybs arbitrary: acc g)
  case Nil
  show ?case by simp
next
  case (Cons yb ybs)
  let ?bin = "filter (\<lambda>r. fst (snd r) = xb \<and> snd (snd r) = yb) binned"
  let ?step = "if length ?bin > 0
               then (case df_sample_one ?bin g of (r, g') \<Rightarrow> (acc @ [fst r], g'))
               else (acc, g)"
  have step: "set (fst ?step) \<subseteq> set acc \<union> fst ` set binned"
  proof (cases "length ?bin > 0")
    case True
    then have "?bin \<noteq> []" by auto
    then have "fst (df_sample_one ?bin g) \<in> set ?bin" by (rule df_sample_one_mem)
    then have "fst (df_sample_one ?bin g) \<in> set binned" by simp
    then have mem: "fst (fst (df_sample_one ?bin g)) \<in> fst ` set binned" by (rule imageI)
    obtain r g' where r: "df_sample_one ?bin g = (r, g')" by (cases "df_sample_one ?bin g")
    have "fst ?step = acc @ [fst r]" using True r by simp
    then show ?thesis using mem r by auto
  next
    case False
    then show ?thesis by simp
  qed
  show ?case
  proof (cases "int (length (fst ?step)) \<ge> n")
    case True
    then have "uniform_inner binned n xb (yb # ybs) acc g = ?step"
      by (simp add: Let_def)
    then show ?thesis using step by simp
  next
    case False
    then have "uniform_inner binned n xb (yb # ybs) acc g
                 = uniform_inner binned n xb ybs (fst ?step) (snd ?step)"
      by (simp add: Let_def)
    then show ?thesis using Cons.IH [of "fst ?step" "snd ?step"] step by auto
  qed
qed

lemma uniform_outer_set:
  "set (fst (uniform_outer binned n xbs ybs acc g)) \<subseteq> set acc \<union> fst ` set binned"
proof (induction xbs arbitrary: acc g)
  case Nil
  show ?case by simp
next
  case (Cons xb xbs)
  let ?step = "uniform_inner binned n xb ybs acc g"
  have step: "set (fst ?step) \<subseteq> set acc \<union> fst ` set binned" by (rule uniform_inner_set)
  show ?case
  proof (cases "int (length (fst ?step)) \<ge> n")
    case True
    then show ?thesis using step by (simp add: Let_def)
  next
    case False
    then have "uniform_outer binned n (xb # xbs) ybs acc g
                 = uniform_outer binned n xbs ybs (fst ?step) (snd ?step)"
      by (simp add: Let_def)
    then show ?thesis using Cons.IH [of "fst ?step" "snd ?step"] step by auto
  qed
qed

lemma uniform_inner_le_n:
  "int (length acc) < n \<Longrightarrow> int (length (fst (uniform_inner binned n xb ybs acc g))) \<le> n"
proof (induction ybs arbitrary: acc g)
  case Nil
  then show ?case by simp
next
  case (Cons yb ybs)
  let ?bin = "filter (\<lambda>r. fst (snd r) = xb \<and> snd (snd r) = yb) binned"
  let ?step = "if length ?bin > 0
               then (case df_sample_one ?bin g of (r, g') \<Rightarrow> (acc @ [fst r], g'))
               else (acc, g)"
  have step: "int (length (fst ?step)) \<le> n"
    using Cons.prems by (auto split: prod.splits)
  show ?case
  proof (cases "int (length (fst ?step)) \<ge> n")
    case True
    then have "uniform_inner binned n xb (yb # ybs) acc g = ?step"
      by (simp add: Let_def)
    then show ?thesis using step by simp
  next
    case False
    then have "uniform_inner binned n xb (yb # ybs) acc g
                 = uniform_inner binned n xb ybs (fst ?step) (snd ?step)"
      by (simp add: Let_def)
    then show ?thesis using Cons.IH [of "fst ?step" "snd ?step"] False by simp
  qed
qed

lemma uniform_outer_le_n:
  "int (length acc) < n \<Longrightarrow> int (length (fst (uniform_outer binned n xbs ybs acc g))) \<le> n"
proof (induction xbs arbitrary: acc g)
  case Nil
  then show ?case by simp
next
  case (Cons xb xbs)
  let ?step = "uniform_inner binned n xb ybs acc g"
  have step: "int (length (fst ?step)) \<le> n" using Cons.prems by (rule uniform_inner_le_n)
  show ?case
  proof (cases "int (length (fst ?step)) \<ge> n")
    case True
    then show ?thesis using step by (simp add: Let_def)
  next
    case False
    then have "uniform_outer binned n (xb # xbs) ybs acc g
                 = uniform_outer binned n xbs ybs (fst ?step) (snd ?step)"
      by (simp add: Let_def)
    then show ?thesis using Cons.IH [of "fst ?step" "snd ?step"] False by simp
  qed
qed

lemma length_filter_disjoint:
  "(\<And>x. x \<in> set xs \<Longrightarrow> \<not> (P x \<and> Q x)) \<Longrightarrow>
   length (filter P xs) + length (filter Q xs) = length (filter (\<lambda>x. P x \<or> Q x) xs)"
  by (induction xs) auto

lemma length_filter_conj_le:
  "length (filter (\<lambda>x. P x \<and> Q x) xs) \<le> length (filter P xs)"
  by (induction xs) auto

lemma uniform_inner_le_cells:
  "distinct ybs \<Longrightarrow>
   length (fst (uniform_inner binned n xb ybs acc g))
     \<le> length acc + length (filter (\<lambda>r. fst (snd r) = xb \<and> snd (snd r) \<in> set ybs) binned)"
proof (induction ybs arbitrary: acc g)
  case Nil
  show ?case by simp
next
  case (Cons yb ybs)
  let ?P = "\<lambda>r. fst (snd r) = xb \<and> snd (snd r) = yb"
  let ?Q = "\<lambda>r. fst (snd r) = xb \<and> snd (snd r) \<in> set ybs"
  let ?bin = "filter ?P binned"
  let ?step = "if length ?bin > 0
               then (case df_sample_one ?bin g of (r, g') \<Rightarrow> (acc @ [fst r], g'))
               else (acc, g)"
  have disj: "length ?bin + length (filter ?Q binned)
                = length (filter (\<lambda>r. ?P r \<or> ?Q r) binned)"
    using Cons.prems by (intro length_filter_disjoint) auto
  have same: "filter (\<lambda>r. ?P r \<or> ?Q r) binned
                = filter (\<lambda>r. fst (snd r) = xb \<and> snd (snd r) \<in> set (yb # ybs)) binned"
    by (rule filter_cong) auto
  have cells: "length ?bin + length (filter ?Q binned)
                 = length (filter (\<lambda>r. fst (snd r) = xb \<and> snd (snd r) \<in> set (yb # ybs)) binned)"
    by (subst same [symmetric]) (rule disj)
  have step: "length (fst ?step) \<le> length acc + length ?bin"
    by (auto split: prod.splits simp: Suc_le_eq)
  show ?case
  proof (cases "int (length (fst ?step)) \<ge> n")
    case True
    then have eq: "uniform_inner binned n xb (yb # ybs) acc g = ?step"
      by (simp add: Let_def)
    show ?thesis unfolding eq using step cells by linarith
  next
    case False
    then have eq: "uniform_inner binned n xb (yb # ybs) acc g
                 = uniform_inner binned n xb ybs (fst ?step) (snd ?step)"
      by (simp add: Let_def)
    have "length (fst (uniform_inner binned n xb ybs (fst ?step) (snd ?step)))
                     \<le> length (fst ?step) + length (filter ?Q binned)"
      using Cons.prems by (intro Cons.IH) simp
    then show ?thesis unfolding eq using step cells by linarith
  qed
qed

lemma uniform_outer_le_cells:
  "distinct xbs \<Longrightarrow> distinct ybs \<Longrightarrow>
   length (fst (uniform_outer binned n xbs ybs acc g))
     \<le> length acc + length (filter (\<lambda>r. fst (snd r) \<in> set xbs) binned)"
proof (induction xbs arbitrary: acc g)
  case Nil
  show ?case by simp
next
  case (Cons xb xbs)
  let ?P = "\<lambda>r. fst (snd r) = xb"
  let ?Q = "\<lambda>r. fst (snd r) \<in> set xbs"
  let ?step = "uniform_inner binned n xb ybs acc g"
  have "length (fst ?step)
          \<le> length acc + length (filter (\<lambda>r. fst (snd r) = xb \<and> snd (snd r) \<in> set ybs) binned)"
    using Cons.prems(2) by (rule uniform_inner_le_cells)
  moreover have "length (filter (\<lambda>r. fst (snd r) = xb \<and> snd (snd r) \<in> set ybs) binned)
                   \<le> length (filter ?P binned)"
    by (rule length_filter_conj_le)
  ultimately have step: "length (fst ?step) \<le> length acc + length (filter ?P binned)" by linarith
  have disj: "length (filter ?P binned) + length (filter ?Q binned)
                = length (filter (\<lambda>r. ?P r \<or> ?Q r) binned)"
    using Cons.prems(1) by (intro length_filter_disjoint) auto
  have same: "filter (\<lambda>r. ?P r \<or> ?Q r) binned
                = filter (\<lambda>r. fst (snd r) \<in> set (xb # xbs)) binned"
    by (rule filter_cong) auto
  have cells: "length (filter ?P binned) + length (filter ?Q binned)
                 = length (filter (\<lambda>r. fst (snd r) \<in> set (xb # xbs)) binned)"
    by (subst same [symmetric]) (rule disj)
  show ?case
  proof (cases "int (length (fst ?step)) \<ge> n")
    case True
    then have eq: "uniform_outer binned n (xb # xbs) ybs acc g = ?step" by (simp add: Let_def)
    show ?thesis unfolding eq using step cells by linarith
  next
    case False
    then have eq: "uniform_outer binned n (xb # xbs) ybs acc g
                 = uniform_outer binned n xbs ybs (fst ?step) (snd ?step)"
      by (simp add: Let_def)
    have "length (fst (uniform_outer binned n xbs ybs (fst ?step) (snd ?step)))
                     \<le> length (fst ?step) + length (filter ?Q binned)"
      using Cons.prems by (intro Cons.IH) simp_all
    then show ?thesis unfolding eq using step cells by linarith
  qed
qed

lemma unique_first_set: "set (unique_first xs) = set xs"
  by (induction xs) auto

lemma unique_first_distinct: "distinct (unique_first xs)"
  by (induction xs) (auto simp: unique_first_set)

lemma int_sqrt_pos: "0 < int_sqrt n \<Longrightarrow> 0 < n"
  by (cases n) simp_all

lemma int_sqrt_spec: "int_sqrt n * int_sqrt n \<le> n \<and> n < (int_sqrt n + 1) * (int_sqrt n + 1)"
proof (induction n)
  case 0
  show ?case by simp
next
  case (Suc n)
  show ?case
  proof (cases "(int_sqrt n + 1) * (int_sqrt n + 1) \<le> Suc n")
    case True
    then have eq: "int_sqrt (Suc n) = int_sqrt n + 1" by simp
    have "Suc n \<le> (int_sqrt n + 1) * (int_sqrt n + 1)" using Suc by simp
    then have "Suc n < (int_sqrt n + 1 + 1) * (int_sqrt n + 1 + 1)" by simp
    then show ?thesis using True unfolding eq by simp
  next
    case False
    then have eq: "int_sqrt (Suc n) = int_sqrt n" by simp
    show ?thesis using False Suc unfolding eq by simp
  qed
qed

lemma uniform_select_props:
  assumes "uniform_select L df_valid n g = Inr (rows, g')"
  shows "set rows \<subseteq> set df_valid" and "1 \<le> length rows" and "int (length rows) \<le> n"
    and "length rows \<le> length df_valid"
proof -
  from assms obtain x_bin y_bin where
    n0: "\<not> n < 0" and
    xb: "pd_cut L (map x_m df_valid) (int_sqrt (nat n)) = Inr x_bin" and
    yb: "pd_cut L (map y_m df_valid) (int_sqrt (nat n)) = Inr y_bin" and
    res: "uniform_outer (zip df_valid (zip x_bin y_bin)) n
            (unique_first x_bin) (unique_first y_bin) [] g = (rows, g')" and
    ne: "rows \<noteq> []"
    by (auto simp: uniform_select_def Let_def split: if_splits sum.splits)
  let ?binned = "zip df_valid (zip x_bin y_bin)"
  from xb have "0 < int_sqrt (nat n)" by (auto simp: pd_cut_def split: if_splits)
  then have npos: "0 < n" using int_sqrt_pos [of "nat n"] by simp
  have "set rows \<subseteq> set [] \<union> fst ` set ?binned"
    using uniform_outer_set [of ?binned n "unique_first x_bin" "unique_first y_bin" "[]" g] res
    by simp
  then show "set rows \<subseteq> set df_valid" using set_zip_leftD by fastforce
  show "1 \<le> length rows" using ne by (cases rows) auto
  show "int (length rows) \<le> n"
    using uniform_outer_le_n [of "[]" n ?binned "unique_first x_bin" "unique_first y_bin" g]
      res npos by simp
  have "length rows \<le> length ([]::table) + length (filter (\<lambda>r. fst (snd r) \<in> set (unique_first x_bin)) ?binned)"
    using uniform_outer_le_cells [OF unique_first_distinct unique_first_distinct,
        of ?binned n x_bin y_bin "[]" g] res by simp
  moreover have "length (filter (\<lambda>r. fst (snd r) \<in> set (unique_first x_bin)) ?binned) \<le> length ?binned"
    by (rule length_filter_le)
  moreover have "length ?binned \<le> length df_valid" by simp
  ultimately show "length rows \<le> length df_valid" by simp
qed

lemma uniform_inner_mono:
  "length acc \<le> length (fst (uniform_inner binned n xb ybs acc g))"
proof (induction ybs arbitrary: acc g)
  case Nil
  show ?case by simp
next
  case (Cons yb ybs)
  let ?bin = "filter (\<lambda>r. fst (snd r) = xb \<and> snd (snd r) = yb) binned"
  let ?step = "if length ?bin > 0
               then (case df_sample_one ?bin g of (r, g') \<Rightarrow> (acc @ [fst r], g'))
               else (acc, g)"
  have step: "length acc \<le> length (fst ?step)" by (auto split: prod.splits)
  show ?case
  proof (cases "int (length (fst ?step)) \<ge> n")
    case True
    then have eq: "uniform_inner binned n xb (yb # ybs) acc g = ?step" by (simp add: Let_def)
    show ?thesis unfolding eq using step .
  next
    case False
    then have eq: "uniform_inner binned n xb (yb # ybs) acc g
                     = uniform_inner binned n xb ybs (fst ?step) (snd ?step)"
      by (simp add: Let_def)
    show ?thesis unfolding eq using step Cons.IH [of "fst ?step" "snd ?step"] by linarith
  qed
qed

lemma uniform_outer_mono:
  "length acc \<le> length (fst (uniform_outer binned n xbs ybs acc g))"
proof (induction xbs arbitrary: acc g)
  case Nil
  show ?case by simp
next
  case (Cons xb xbs)
  let ?step = "uniform_inner binned n xb ybs acc g"
  have step: "length acc \<le> length (fst ?step)" by (rule uniform_inner_mono)
  show ?case
  proof (cases "int (length (fst ?step)) \<ge> n")
    case True
    then have eq: "uniform_outer binned n (xb # xbs) ybs acc g = ?step" by (simp add: Let_def)
    show ?thesis unfolding eq using step .
  next
    case False
    then have eq: "uniform_outer binned n (xb # xbs) ybs acc g
                     = uniform_outer binned n xbs ybs (fst ?step) (snd ?step)"
      by (simp add: Let_def)
    show ?thesis unfolding eq using step Cons.IH [of "fst ?step" "snd ?step"] by linarith
  qed
qed

lemma uniform_inner_grows:
  assumes "int (length acc) < n"
    and "\<exists>yb \<in> set ybs. filter (\<lambda>r. fst (snd r) = xb \<and> snd (snd r) = yb) binned \<noteq> []"
  shows "length acc < length (fst (uniform_inner binned n xb ybs acc g))"
  using assms
proof (induction ybs arbitrary: acc g)
  case Nil
  then show ?case by simp
next
  case (Cons yb ybs)
  let ?bin = "filter (\<lambda>r. fst (snd r) = xb \<and> snd (snd r) = yb) binned"
  let ?step = "if length ?bin > 0
               then (case df_sample_one ?bin g of (r, g') \<Rightarrow> (acc @ [fst r], g'))
               else (acc, g)"
  show ?case
  proof (cases "?bin = []")
    case True
    then have st: "?step = (acc, g)" by simp
    from True Cons.prems(2)
    have ex: "\<exists>yb \<in> set ybs. filter (\<lambda>r. fst (snd r) = xb \<and> snd (snd r) = yb) binned \<noteq> []"
      by auto
    have eq: "uniform_inner binned n xb (yb # ybs) acc g = uniform_inner binned n xb ybs acc g"
      using True Cons.prems(1) by (simp add: Let_def)
    show ?thesis unfolding eq using Cons.IH [OF Cons.prems(1) ex] .
  next
    case False
    then have step: "length (fst ?step) = Suc (length acc)" by (auto split: prod.splits)
    show ?thesis
    proof (cases "int (length (fst ?step)) \<ge> n")
      case True
      then have eq: "uniform_inner binned n xb (yb # ybs) acc g = ?step" by (simp add: Let_def)
      show ?thesis unfolding eq using step by linarith
    next
      case nstop: False
      then have eq: "uniform_inner binned n xb (yb # ybs) acc g
                       = uniform_inner binned n xb ybs (fst ?step) (snd ?step)"
        by (simp add: Let_def)
      show ?thesis unfolding eq
        using step uniform_inner_mono [of "fst ?step" binned n xb ybs "snd ?step"] by linarith
    qed
  qed
qed

lemma pd_cut_length: "pd_cut L col nb = Inr bins \<Longrightarrow> length bins = length col"
  by (auto simp: pd_cut_def Let_def split: if_splits)

lemma uniform_select_total:
  assumes ne: "df_valid \<noteq> []" and n: "1 \<le> n"
  shows "\<exists>rows g'. uniform_select L df_valid n g = Inr (rows, g')"
proof -
  have nb: "\<not> int_sqrt (nat n) < 1"
    using int_sqrt_spec [of "nat n"] n by (cases "int_sqrt (nat n)") auto
  obtain x_bin where xb: "pd_cut L (map x_m df_valid) (int_sqrt (nat n)) = Inr x_bin"
    using nb by (simp add: pd_cut_def Let_def)
  obtain y_bin where yb: "pd_cut L (map y_m df_valid) (int_sqrt (nat n)) = Inr y_bin"
    using nb by (simp add: pd_cut_def Let_def)
  have lx: "length x_bin = length df_valid" using pd_cut_length [OF xb] by simp
  have ly: "length y_bin = length df_valid" using pd_cut_length [OF yb] by simp
  let ?binned = "zip df_valid (zip x_bin y_bin)"
  obtain r rs where df: "df_valid = r # rs" using ne by (cases df_valid) auto
  obtain bx bxs where xs: "x_bin = bx # bxs" using lx df by (cases x_bin) auto
  obtain by' bys where ys: "y_bin = by' # bys" using ly df by (cases y_bin) auto
  have mem: "(r, bx, by') \<in> set ?binned" by (simp add: df xs ys)
  have cell: "\<exists>yb \<in> set (unique_first y_bin).
                filter (\<lambda>r. fst (snd r) = bx \<and> snd (snd r) = yb) ?binned \<noteq> []"
  proof (intro bexI [of _ by'])
    show "filter (\<lambda>r. fst (snd r) = bx \<and> snd (snd r) = by') ?binned \<noteq> []"
      using mem by (force simp: filter_empty_conv)
    show "by' \<in> set (unique_first y_bin)" by (simp add: unique_first_set ys)
  qed
  have ux: "unique_first x_bin = bx # filter (\<lambda>y. y \<noteq> bx) (unique_first bxs)"
    by (simp add: xs)
  let ?inner = "uniform_inner ?binned n bx (unique_first y_bin) [] g"
  have grow: "0 < length (fst ?inner)"
    using uniform_inner_grows [of "[]" n "unique_first y_bin" bx ?binned g] cell n by simp
  let ?outer = "uniform_outer ?binned n (unique_first x_bin) (unique_first y_bin) [] g"
  have "0 < length (fst ?outer)"
  proof (cases "int (length (fst ?inner)) \<ge> n")
    case True
    then have "?outer = ?inner" unfolding ux by (simp add: Let_def)
    then show ?thesis using grow by simp
  next
    case False
    then have eq: "?outer = uniform_outer ?binned n (filter (\<lambda>y. y \<noteq> bx) (unique_first bxs))
                          (unique_first y_bin) (fst ?inner) (snd ?inner)"
      unfolding ux by (simp add: Let_def)
    show ?thesis
      unfolding eq
      using grow uniform_outer_mono [of "fst ?inner" ?binned n
          "filter (\<lambda>y. y \<noteq> bx) (unique_first bxs)" "unique_first y_bin" "snd ?inner"]
      by linarith
  qed
  then have "fst ?outer \<noteq> []" by auto
  then show ?thesis
    using n xb yb by (cases ?outer) (simp add: uniform_select_def Let_def)
qed

lemma iloc_props:
  "iloc df idxs = Inr rows \<Longrightarrow> rows = map ((!) df) idxs \<and> set rows \<subseteq> set df"
  by (auto simp: iloc_def list_all_iff split: if_splits)

lemma lhs_select_props:
  assumes ne: "df_valid \<noteq> []" and res: "lhs_select L df_valid n g = Inr (rows, g')"
  shows "set rows \<subseteq> set df_valid" and "int (length rows) = n" and "n \<le> int (length df_valid)"
proof -
  from res obtain idxs where n0: "0 \<le> n"
    and ix: "lhs_indices L df_valid (nat n) g = Inr (idxs, g')"
    and il: "iloc df_valid idxs = Inr rows"
    by (auto simp: lhs_select_def split: if_splits sum.splits)
  note p = lhs_indices_props [OF ne ix]
  show "set rows \<subseteq> set df_valid" using iloc_props [OF il] by blast
  have "length rows = length idxs" using iloc_props [OF il] by simp
  then show "int (length rows) = n" using p n0 by simp
  have "card (set idxs) \<le> card {0..<length df_valid}"
    using p by (intro card_mono) auto
  then have "length idxs \<le> length df_valid" using p by (simp add: distinct_card)
  then show "n \<le> int (length df_valid)" using p n0 by linarith
qed

lemma lhs_select_total:
  assumes ne: "df_valid \<noteq> []" and n: "0 \<le> n" "n \<le> int (length df_valid)"
  shows "\<exists>rows g'. lhs_select L df_valid n g = Inr (rows, g')"
proof -
  have "nat n \<le> length df_valid" using n by simp
  from lhs_indices_total [OF ne this, of L g]
  obtain idxs g' where ix: "lhs_indices L df_valid (nat n) g = Inr (idxs, g')" by blast
  have "list_all (\<lambda>i. i < length df_valid) idxs"
    using lhs_indices_props [OF ne ix] by (auto simp: list_all_iff)
  then show ?thesis using n ix by (simp add: lhs_select_def iloc_def)
qed

lemma df_sample_seeded_props:
  assumes "df_sample_seeded L seed df n = Inr rows"
  shows "set rows \<subseteq> set df" and "int (length rows) = n" and "n \<le> int (length df)"
proof -
  from assms have n: "0 \<le> n" "n \<le> int (length df)"
    and rows: "rows = map ((!) df) (fst (draw_distinct [0..<length df] (nat n) (seeded_draws L seed)))"
    by (auto simp: df_sample_seeded_def split: if_splits)
  have "set (fst (draw_distinct [0..<length df] (nat n) (seeded_draws L seed))) \<subseteq> set [0..<length df]"
    by (rule draw_distinct_set)
  then show "set rows \<subseteq> set df" unfolding rows by auto
  have "nat n \<le> length [0..<length df]" using n by simp
  from draw_distinct_length [OF this]
  show "int (length rows) = n" unfolding rows using n by simp
  show "n \<le> int (length df)" by (rule n)
qed

lemma df_sample_seeded_total:
  "0 \<le> n \<Longrightarrow> n \<le> int (length df) \<Longrightarrow> \<exists>rows. df_sample_seeded L seed df n = Inr rows"
  by (simp add: df_sample_seeded_def)

subsection \<open>The uniform loops against the cells in visiting order\<close>

lemma cell_filter:
  "filter (\<lambda>r. fst (snd r) = xb \<and> snd (snd r) = yb) binned = cell_rows binned (xb, yb)"
  unfolding cell_rows_def by (rule filter_cong) (auto simp: prod_eq_iff)

lemma pick_cells_Cons:
  "pick_cells binned (c # cs) g =
     (fst (fst (df_sample_one (cell_rows binned c) g))
        # fst (pick_cells binned cs (snd (df_sample_one (cell_rows binned c) g))),
      snd (pick_cells binned cs (snd (df_sample_one (cell_rows binned c) g))))"
  by (simp split: prod.splits)

lemma pick_cells_length: "length (fst (pick_cells binned cs g)) = length cs"
proof (induction cs arbitrary: g)
  case Nil
  show ?case by simp
next
  case (Cons c cs)
  show ?case unfolding pick_cells_Cons using Cons.IH by simp
qed

lemma pick_cells_append:
  "pick_cells binned (cs1 @ cs2) g =
     (fst (pick_cells binned cs1 g) @ fst (pick_cells binned cs2 (snd (pick_cells binned cs1 g))),
      snd (pick_cells binned cs2 (snd (pick_cells binned cs1 g))))"
proof (induction cs1 arbitrary: g)
  case Nil
  show ?case by simp
next
  case (Cons c cs1)
  have "pick_cells binned ((c # cs1) @ cs2) g = pick_cells binned (c # (cs1 @ cs2)) g" by simp
  also have "\<dots> = (fst (fst (df_sample_one (cell_rows binned c) g))
        # fst (pick_cells binned (cs1 @ cs2) (snd (df_sample_one (cell_rows binned c) g))),
      snd (pick_cells binned (cs1 @ cs2) (snd (df_sample_one (cell_rows binned c) g))))"
    by (rule pick_cells_Cons)
  finally show ?case
    using Cons.IH [of "snd (df_sample_one (cell_rows binned c) g)"]
    by (simp only: pick_cells_Cons fst_conv snd_conv append_Cons)
qed

lemma pick_cells_rows:
  assumes "\<forall>c \<in> set cs. cell_rows binned c \<noteq> []" and "k < length cs"
  shows "(fst (pick_cells binned cs g) ! k, cs ! k) \<in> set binned"
  using assms
proof (induction cs arbitrary: g k)
  case Nil
  then show ?case by simp
next
  case (Cons c cs)
  obtain r g' where r: "df_sample_one (cell_rows binned c) g = (r, g')"
    by (cases "df_sample_one (cell_rows binned c) g")
  obtain rs g'' where rs: "pick_cells binned cs g' = (rs, g'')" by (cases "pick_cells binned cs g'")
  have eq: "fst (pick_cells binned (c # cs) g) = fst r # rs" using r rs by simp
  show ?case
  proof (cases k)
    case 0
    have "cell_rows binned c \<noteq> []" using Cons.prems(1) by simp
    then have "fst (df_sample_one (cell_rows binned c) g) \<in> set (cell_rows binned c)"
      by (rule df_sample_one_mem)
    then have "r \<in> set binned" "snd r = c" using r by (auto simp: cell_rows_def)
    then have "(fst r, c) \<in> set binned" by (metis prod.collapse)
    then show ?thesis using 0 eq by simp
  next
    case (Suc j)
    have "(fst (pick_cells binned cs g') ! j, cs ! j) \<in> set binned"
      using Cons.prems Suc by (intro Cons.IH) auto
    then show ?thesis using Suc eq rs by simp
  qed
qed

lemma uniform_inner_exact:
  assumes "int (length acc) < n"
  shows "uniform_inner binned n xb ybs acc g =
           (acc @ fst (pick_cells binned
                    (take (nat (n - int (length acc))) (cells_in_order binned [xb] ybs)) g),
            snd (pick_cells binned
                    (take (nat (n - int (length acc))) (cells_in_order binned [xb] ybs)) g))"
  using assms
proof (induction ybs arbitrary: acc g)
  case Nil
  show ?case by (simp add: cells_in_order_def)
next
  case (Cons yb ybs)
  let ?m = "nat (n - int (length acc))"
  have m: "0 < ?m" using Cons.prems by simp
  show ?case
  proof (cases "cell_rows binned (xb, yb) = []")
    case True
    have cs: "cells_in_order binned [xb] (yb # ybs) = cells_in_order binned [xb] ybs"
      using True by (simp add: cells_in_order_def)
    have "uniform_inner binned n xb (yb # ybs) acc g = uniform_inner binned n xb ybs acc g"
      using True Cons.prems by (simp add: cell_filter Let_def)
    then show ?thesis unfolding cs using Cons.IH [OF Cons.prems] by simp
  next
    case False
    have cs: "cells_in_order binned [xb] (yb # ybs) = (xb, yb) # cells_in_order binned [xb] ybs"
      using False by (simp add: cells_in_order_def)
    obtain r g' where r: "df_sample_one (cell_rows binned (xb, yb)) g = (r, g')"
      by (cases "df_sample_one (cell_rows binned (xb, yb)) g")
    have tk: "take ?m ((xb, yb) # cells_in_order binned [xb] ybs)
                = (xb, yb) # take (?m - 1) (cells_in_order binned [xb] ybs)"
      using m by (cases ?m) simp_all
    show ?thesis
    proof (cases "int (length (acc @ [fst r])) \<ge> n")
      case True
      then have m1: "?m - 1 = 0" using Cons.prems by simp
      have step: "uniform_inner binned n xb (yb # ybs) acc g = (acc @ [fst r], g')"
        using False True r by (simp add: cell_filter Let_def)
      have pc: "pick_cells binned [(xb, yb)] g = ([fst r], g')"
        unfolding pick_cells_Cons r by simp
      show ?thesis unfolding cs tk m1 step by (simp only: take_0 pc fst_conv snd_conv)
    next
      case nstop: False
      then have lt: "int (length (acc @ [fst r])) < n" by simp
      have m': "nat (n - int (length (acc @ [fst r]))) = ?m - 1" by simp
      have step: "uniform_inner binned n xb (yb # ybs) acc g
              = uniform_inner binned n xb ybs (acc @ [fst r]) g'"
        using False nstop r by (simp add: cell_filter Let_def)
      have ih: "uniform_inner binned n xb ybs (acc @ [fst r]) g'
              = ((acc @ [fst r]) @ fst (pick_cells binned
                    (take (?m - 1) (cells_in_order binned [xb] ybs)) g'),
                 snd (pick_cells binned (take (?m - 1) (cells_in_order binned [xb] ybs)) g'))"
        using Cons.IH [OF lt, of g'] unfolding m' .
      have pc: "pick_cells binned ((xb, yb) # take (?m - 1) (cells_in_order binned [xb] ybs)) g
              = (fst r # fst (pick_cells binned (take (?m - 1) (cells_in_order binned [xb] ybs)) g'),
                 snd (pick_cells binned (take (?m - 1) (cells_in_order binned [xb] ybs)) g'))"
        unfolding pick_cells_Cons r by simp
      show ?thesis unfolding cs tk pc step ih by simp
    qed
  qed
qed

lemma cells_in_order_Cons:
  "cells_in_order binned (xb # xbs) ybs
     = cells_in_order binned [xb] ybs @ cells_in_order binned xbs ybs"
  by (simp add: cells_in_order_def)

lemma uniform_outer_exact:
  assumes "int (length acc) < n"
  shows "uniform_outer binned n xbs ybs acc g =
           (acc @ fst (pick_cells binned
                    (take (nat (n - int (length acc))) (cells_in_order binned xbs ybs)) g),
            snd (pick_cells binned
                    (take (nat (n - int (length acc))) (cells_in_order binned xbs ybs)) g))"
  using assms
proof (induction xbs arbitrary: acc g)
  case Nil
  show ?case by (simp add: cells_in_order_def)
next
  case (Cons xb xbs)
  let ?m = "nat (n - int (length acc))"
  let ?cs1 = "cells_in_order binned [xb] ybs"
  let ?cs2 = "cells_in_order binned xbs ybs"
  let ?p1 = "pick_cells binned (take ?m ?cs1) g"
  have inner: "uniform_inner binned n xb ybs acc g = (acc @ fst ?p1, snd ?p1)"
    using Cons.prems by (rule uniform_inner_exact)
  have l1: "length (fst ?p1) = min ?m (length ?cs1)" by (simp add: pick_cells_length min.commute)
  have tk: "take ?m (?cs1 @ ?cs2) = take ?m ?cs1 @ take (?m - length ?cs1) ?cs2" by simp
  have cc: "cells_in_order binned (xb # xbs) ybs = ?cs1 @ ?cs2" by (rule cells_in_order_Cons)
  show ?case
  proof (cases "int (length (acc @ fst ?p1)) \<ge> n")
    case True
    then have "?m \<le> length ?cs1" using l1 Cons.prems by simp
    then have z: "take (?m - length ?cs1) ?cs2 = []" by simp
    have "uniform_outer binned n (xb # xbs) ybs acc g = (acc @ fst ?p1, snd ?p1)"
      using True inner by (simp add: Let_def)
    then show ?thesis unfolding cc tk z by simp
  next
    case False
    then have lt: "int (length (acc @ fst ?p1)) < n" by simp
    then have short: "length ?cs1 < ?m" using l1 by simp
    then have all1: "take ?m ?cs1 = ?cs1" by simp
    have m': "nat (n - int (length (acc @ fst ?p1))) = ?m - length ?cs1"
      using l1 short by simp
    have "uniform_outer binned n (xb # xbs) ybs acc g
            = uniform_outer binned n xbs ybs (acc @ fst ?p1) (snd ?p1)"
      using False inner by (simp add: Let_def)
    also have "\<dots> = ((acc @ fst ?p1) @ fst (pick_cells binned (take (?m - length ?cs1) ?cs2) (snd ?p1)),
                      snd (pick_cells binned (take (?m - length ?cs1) ?cs2) (snd ?p1)))"
      using Cons.IH [OF lt, of "snd ?p1"] unfolding m' .
    finally show ?thesis
      unfolding cc tk by (simp add: pick_cells_append)
  qed
qed

lemma cells_in_order_nonempty: "\<forall>c \<in> set (cells_in_order binned xbs ybs). cell_rows binned c \<noteq> []"
  by (simp add: cells_in_order_def)

lemma cells_in_order_distinct:
  "distinct xbs \<Longrightarrow> distinct ybs \<Longrightarrow> distinct (cells_in_order binned xbs ybs)"
  by (simp add: cells_in_order_def distinct_product)

lemma cells_in_order_set:
  "set (cells_in_order binned (unique_first (map (\<lambda>r. fst (snd r)) binned))
                              (unique_first (map (\<lambda>r. snd (snd r)) binned)))
     = snd ` set binned"
  by (auto simp: cells_in_order_def cell_rows_def unique_first_set filter_empty_conv) force+

lemma binned_rows_labels:
  assumes "pd_cut L (map x_m df) nb = Inr x_bin" "pd_cut L (map y_m df) nb = Inr y_bin"
  shows "map (\<lambda>r. fst (snd r)) (zip df (zip x_bin y_bin)) = x_bin"
    and "map (\<lambda>r. snd (snd r)) (zip df (zip x_bin y_bin)) = y_bin"
proof -
  have l: "length x_bin = length df" "length y_bin = length df"
    using pd_cut_length [OF assms(1)] pd_cut_length [OF assms(2)] by simp_all
  show "map (\<lambda>r. fst (snd r)) (zip df (zip x_bin y_bin)) = x_bin"
    using l by (intro nth_equalityI) auto
  show "map (\<lambda>r. snd (snd r)) (zip df (zip x_bin y_bin)) = y_bin"
    using l by (intro nth_equalityI) auto
qed

lemma uniform_select_exact:
  assumes ne: "df_valid \<noteq> []" and n: "1 \<le> n"
  shows "uniform_select L df_valid n g
           = Inr (pick_cells (binned_rows L df_valid n)
                    (take (nat n) (visited_cells L df_valid n)) g)"
proof -
  have nb: "\<not> int_sqrt (nat n) < 1"
    using int_sqrt_spec [of "nat n"] n by (cases "int_sqrt (nat n)") auto
  obtain x_bin where xb: "pd_cut L (map x_m df_valid) (int_sqrt (nat n)) = Inr x_bin"
    using nb by (simp add: pd_cut_def Let_def)
  obtain y_bin where yb: "pd_cut L (map y_m df_valid) (int_sqrt (nat n)) = Inr y_bin"
    using nb by (simp add: pd_cut_def Let_def)
  let ?binned = "zip df_valid (zip x_bin y_bin)"
  have br: "binned_rows L df_valid n = ?binned" using xb yb by (simp add: binned_rows_def)
  have vc: "visited_cells L df_valid n
              = cells_in_order ?binned (unique_first x_bin) (unique_first y_bin)"
    unfolding visited_cells_def br using binned_rows_labels [OF xb yb] by simp
  have out: "uniform_outer ?binned n (unique_first x_bin) (unique_first y_bin) [] g
               = pick_cells ?binned (take (nat n) (visited_cells L df_valid n)) g"
    using uniform_outer_exact [of "[]" n ?binned "unique_first x_bin" "unique_first y_bin" g] n
    unfolding vc by simp
  from uniform_select_total [OF ne n, of L g] obtain rows g' where
    "uniform_select L df_valid n g = Inr (rows, g')" by blast
  then show ?thesis using xb yb n out unfolding br
    by (auto simp: uniform_select_def Let_def split: if_splits)
qed

lemma visited_cells_distinct: "distinct (visited_cells L df_valid n)"
  unfolding visited_cells_def
  by (intro cells_in_order_distinct unique_first_distinct)

lemma visited_cells_set:
  "set (visited_cells L df_valid n) = snd ` set (binned_rows L df_valid n)"
  unfolding visited_cells_def by (rule cells_in_order_set)

lemma visited_cells_nonempty:
  "\<forall>c \<in> set (visited_cells L df_valid n). cell_rows (binned_rows L df_valid n) c \<noteq> []"
  unfolding visited_cells_def by (rule cells_in_order_nonempty)

subsection \<open>The strategy chain and the loop\<close>

lemma select_rows_props:
  assumes ne: "df \<noteq> []" and res: "select_rows L cfg df n g = Inr (rows, bb, g')"
  shows "set rows \<subseteq> set df"
    and "length rows \<le> length df"
    and "int (length rows) \<le> n"
    and "sample_strategy cfg \<noteq> ''uniform'' \<Longrightarrow> int (length rows) = n"
    and "sample_strategy cfg = ''uniform'' \<Longrightarrow> 1 \<le> length rows"
    and "(bb = None) = (sample_strategy cfg \<noteq> ''lhs'')"
proof -
  consider (lhs) "sample_strategy cfg = ''lhs''"
    | (random) "sample_strategy cfg = ''random''"
    | (uniform) "sample_strategy cfg = ''uniform''"
    using res by (auto simp: select_rows_def split: if_splits)
  then have "set rows \<subseteq> set df \<and> length rows \<le> length df \<and> int (length rows) \<le> n
      \<and> (sample_strategy cfg \<noteq> ''uniform'' \<longrightarrow> int (length rows) = n)
      \<and> (sample_strategy cfg = ''uniform'' \<longrightarrow> 1 \<le> length rows)
      \<and> (bb = None) = (sample_strategy cfg \<noteq> ''lhs'')"
  proof cases
    case lhs
    with res obtain g1 where r: "lhs_select L df n g = Inr (rows, g1)" and bb: "bb \<noteq> None"
      by (auto simp: select_rows_def split: sum.splits)
    show ?thesis using lhs_select_props [OF ne r] lhs bb by simp
  next
    case random
    with res have r: "df_sample_seeded L 42 df n = Inr rows" and bb: "bb = None"
      by (auto simp: select_rows_def split: sum.splits)
    show ?thesis using df_sample_seeded_props [OF r] random bb by simp
  next
    case uniform
    with res obtain g1 where r: "uniform_select L df n g = Inr (rows, g1)" and bb: "bb = None"
      by (auto simp: select_rows_def split: sum.splits)
    show ?thesis using uniform_select_props [OF r] uniform bb by simp
  qed
  then show "set rows \<subseteq> set df"
    and "length rows \<le> length df"
    and "int (length rows) \<le> n"
    and "sample_strategy cfg \<noteq> ''uniform'' \<Longrightarrow> int (length rows) = n"
    and "sample_strategy cfg = ''uniform'' \<Longrightarrow> 1 \<le> length rows"
    and "(bb = None) = (sample_strategy cfg \<noteq> ''lhs'')"
    by simp_all
qed

lemma select_rows_unknown:
  "sample_strategy cfg \<notin> {''lhs'', ''random'', ''uniform''} \<Longrightarrow>
   select_rows L cfg df n g = Inl ValueError_strategy"
  by (simp add: select_rows_def)

lemma select_rows_total:
  assumes ne: "df \<noteq> []"
  shows "sample_strategy cfg \<in> {''lhs'', ''random''} \<Longrightarrow> 0 \<le> n \<Longrightarrow> n \<le> int (length df) \<Longrightarrow>
           \<exists>rows bb g'. select_rows L cfg df n g = Inr (rows, bb, g')"
    and "sample_strategy cfg = ''uniform'' \<Longrightarrow> 1 \<le> n \<Longrightarrow>
           \<exists>rows bb g'. select_rows L cfg df n g = Inr (rows, bb, g')"
proof -
  assume s: "sample_strategy cfg \<in> {''lhs'', ''random''}" and n: "0 \<le> n" "n \<le> int (length df)"
  show "\<exists>rows bb g'. select_rows L cfg df n g = Inr (rows, bb, g')"
  proof (cases "sample_strategy cfg = ''lhs''")
    case True
    from lhs_select_total [OF ne n, of L g] obtain rows g' where
      "lhs_select L df n g = Inr (rows, g')" by blast
    then show ?thesis using True by (simp add: select_rows_def)
  next
    case False
    with s have r: "sample_strategy cfg = ''random''" by simp
    from df_sample_seeded_total [OF n, of L 42] obtain rows where
      "df_sample_seeded L 42 df n = Inr rows" by blast
    then show ?thesis using r by (simp add: select_rows_def)
  qed
next
  assume s: "sample_strategy cfg = ''uniform''" and n: "1 \<le> n"
  from uniform_select_total [OF ne n, of L g] obtain rows g' where
    "uniform_select L df n g = Inr (rows, g')" by blast
  then show "\<exists>rows bb g'. select_rows L cfg df n g = Inr (rows, bb, g')"
    using s by (simp add: select_rows_def)
qed

lemma handled_append: "handled (xs @ ys) = handled xs @ handled ys"
  by (induction xs rule: handled.induct) auto

text \<open>The three ways the loop body ends.\<close>

lemma process_file_skip:
  "df_valid_of cfg (snd f) = [] \<Longrightarrow>
   process_file L cfg f w = (None, w\<lparr>stdout := stdout w @ [Warn (fst f)]\<rparr>)"
  by (simp add: process_file_def Let_def)

lemma process_file_raise:
  "df_valid_of cfg (snd f) \<noteq> [] \<Longrightarrow>
   select_rows L cfg (df_valid_of cfg (snd f))
     (n_sample L cfg (length (df_valid_of cfg (snd f)))) (np_random w) = Inl err \<Longrightarrow>
   process_file L cfg f w = (Some err, w)"
  by (simp add: process_file_def Let_def)

lemma process_file_write:
  assumes "df_valid_of cfg (snd f) \<noteq> []"
    and "select_rows L cfg (df_valid_of cfg (snd f))
           (n_sample L cfg (length (df_valid_of cfg (snd f)))) (np_random w) = Inr (rows, bb, g')"
  shows "fst (process_file L cfg f w) = (if bb = None then Some UnboundLocalError else None)"
    and "out_files (snd (process_file L cfg f w)) = out_files w @ [(output_name (fst f), rows)]"
    and "made_dirs (snd (process_file L cfg f w)) = made_dirs w"
    and "handled (stdout (snd (process_file L cfg f w))) = handled (stdout w) @ [fst f]"
  using assms
  by (auto simp: process_file_def Let_def handled_append split: option.splits)

lemma process_file_cases:
  "(df_valid_of cfg (snd f) = [] \<and>
      process_file L cfg f w = (None, w\<lparr>stdout := stdout w @ [Warn (fst f)]\<rparr>))
   \<or> (\<exists>err. df_valid_of cfg (snd f) \<noteq> [] \<and>
         select_rows L cfg (df_valid_of cfg (snd f))
           (n_sample L cfg (length (df_valid_of cfg (snd f)))) (np_random w) = Inl err \<and>
         process_file L cfg f w = (Some err, w))
   \<or> (\<exists>rows bb g'. df_valid_of cfg (snd f) \<noteq> [] \<and>
         select_rows L cfg (df_valid_of cfg (snd f))
           (n_sample L cfg (length (df_valid_of cfg (snd f)))) (np_random w) = Inr (rows, bb, g') \<and>
         fst (process_file L cfg f w) = (if bb = None then Some UnboundLocalError else None) \<and>
         out_files (snd (process_file L cfg f w)) = out_files w @ [(output_name (fst f), rows)] \<and>
         made_dirs (snd (process_file L cfg f w)) = made_dirs w \<and>
         handled (stdout (snd (process_file L cfg f w))) = handled (stdout w) @ [fst f])"
proof (cases "df_valid_of cfg (snd f) = []")
  case True
  then show ?thesis using process_file_skip by blast
next
  case False
  show ?thesis
  proof (cases "select_rows L cfg (df_valid_of cfg (snd f))
                  (n_sample L cfg (length (df_valid_of cfg (snd f)))) (np_random w)")
    case (Inl err)
    then show ?thesis using False process_file_raise by blast
  next
    case (Inr r)
    obtain rows bb g' where r: "r = (rows, bb, g')" by (cases r)
    show ?thesis using False Inr process_file_write [OF False, of L w rows bb g'] unfolding r
      by blast
  qed
qed

lemma process_files_written:
  assumes step: "\<And>f w rows. f \<in> set fs \<Longrightarrow>
      out_files (snd (process_file L cfg f w)) = out_files w @ [(output_name (fst f), rows)] \<Longrightarrow>
      Q f rows"
  shows "\<exists>new. out_files (snd (process_files L cfg fs w)) = out_files w @ new \<and>
           (\<forall>out \<in> set new. \<exists>f \<in> set fs. fst out = output_name (fst f) \<and> Q f (snd out))"
  using step
proof (induction fs arbitrary: w)
  case Nil
  show ?case by simp
next
  case (Cons f fs)
  obtain e w1 where pf: "process_file L cfg f w = (e, w1)" by (cases "process_file L cfg f w")
  have here: "\<exists>new. out_files w1 = out_files w @ new \<and>
                (\<forall>out \<in> set new. \<exists>f' \<in> set (f # fs). fst out = output_name (fst f') \<and> Q f' (snd out))"
    using process_file_cases [of cfg f L w]
  proof (elim disjE exE conjE)
    assume "process_file L cfg f w = (None, w\<lparr>stdout := stdout w @ [Warn (fst f)]\<rparr>)"
    then have "out_files w1 = out_files w @ []" using pf by auto
    then show ?thesis by (intro exI [of _ "[]"]) simp
  next
    fix err assume "process_file L cfg f w = (Some err, w)"
    then have "out_files w1 = out_files w @ []" using pf by auto
    then show ?thesis by (intro exI [of _ "[]"]) simp
  next
    fix rows bb g'
    assume wr: "out_files (snd (process_file L cfg f w)) = out_files w @ [(output_name (fst f), rows)]"
    then have "Q f rows" using Cons.prems [of f w rows] by simp
    then show ?thesis using wr pf by (intro exI [of _ "[(output_name (fst f), rows)]"]) simp
  qed
  show ?case
  proof (cases e)
    case (Some err)
    then have "process_files L cfg (f # fs) w = (Some err, w1)" using pf by simp
    then show ?thesis using here by simp
  next
    case None
    then have eq: "process_files L cfg (f # fs) w = process_files L cfg fs w1" using pf by simp
    from Cons.IH [of w1] Cons.prems
    obtain new2 where n2: "out_files (snd (process_files L cfg fs w1)) = out_files w1 @ new2"
      "\<forall>out \<in> set new2. \<exists>f' \<in> set fs. fst out = output_name (fst f') \<and> Q f' (snd out)"
      by (metis list.set_intros(2))
    from here obtain new1 where n1: "out_files w1 = out_files w @ new1"
      "\<forall>out \<in> set new1. \<exists>f' \<in> set (f # fs). fst out = output_name (fst f') \<and> Q f' (snd out)"
      by blast
    have "out_files (snd (process_files L cfg (f # fs) w)) = out_files w @ (new1 @ new2)"
      unfolding eq using n1(1) n2(1) by simp
    moreover have "\<forall>out \<in> set (new1 @ new2). \<exists>f' \<in> set (f # fs). fst out = output_name (fst f') \<and> Q f' (snd out)"
      using n1(2) n2(2) by auto
    ultimately show ?thesis by blast
  qed
qed

lemma sort_keys_Inr:
  "sort_keys L fs = Inr ks \<Longrightarrow>
   map snd ks = fs \<and> (\<forall>kf \<in> set ks. time_key L (fst (snd kf)) = Inr (fst kf))"
  by (induction fs arbitrary: ks) (auto split: sum.splits)

lemma sort_keys_Inl:
  "sort_keys L fs = Inl e \<Longrightarrow> \<exists>f \<in> set fs. time_key L (fst f) = Inl e"
  by (induction fs) (auto split: sum.splits)

lemma sort_keys_fail:
  "f \<in> set fs \<Longrightarrow> time_key L (fst f) = Inl e \<Longrightarrow> \<exists>e'. sort_keys L fs = Inl e'"
  by (induction fs) (auto split: sum.splits)

lemma split_on_two: "c \<in> set s \<Longrightarrow> \<exists>a b rest. split_on c s = a # b # rest"
proof (induction s)
  case Nil
  then show ?case by simp
next
  case (Cons x xs)
  show ?case
  proof (cases "x = c")
    case True
    obtain t ts where "split_on c xs = t # ts" by (cases xs; cases "split_on c xs") (auto split: list.splits if_splits)
    then show ?thesis using True by simp
  next
    case False
    then have "c \<in> set xs" using Cons.prems by simp
    then obtain a b rest where "split_on c xs = a # b # rest" using Cons.IH by blast
    then show ?thesis using False by simp
  qed
qed

lemma snapshot_name_key:
  assumes "is_snapshot_name x"
  shows "time_key L x \<noteq> Inl IndexError"
proof -
  have "take (length global_prefix) x = global_prefix"
    using assms by (simp add: is_snapshot_name_def startswith_def)
  then have "set global_prefix \<subseteq> set x" by (metis set_take_subset)
  moreover have "CHR ''_'' \<in> set global_prefix" by (simp add: global_prefix_def)
  ultimately have "CHR ''_'' \<in> set x" by blast
  then obtain a b rest where "split_on (CHR ''_'') x = a # b # rest"
    using split_on_two by blast
  then show ?thesis by (simp add: time_key_def split: option.splits)
qed

lemma time_key_errors: "time_key L x = Inl e \<Longrightarrow> e = IndexError \<or> e = ValueError_int_literal"
  by (auto simp: time_key_def split: list.splits option.splits)

lemma csv_files_Inr:
  assumes "csv_files L listing = Inr files"
  shows "mset files = mset (filter (\<lambda>f. is_snapshot_name (fst f)) listing)"
    and "sorted (map (\<lambda>f. time_of L (fst f)) files)"
    and "\<forall>f \<in> set files. \<exists>k. time_key L (fst f) = Inr k"
proof -
  let ?fs = "filter (\<lambda>f. is_snapshot_name (fst f)) listing"
  from assms obtain ks where ks: "sort_keys L ?fs = Inr ks"
    and files: "files = map snd (sort_key fst ks)"
    by (auto simp: csv_files_def split: sum.splits)
  note sk = sort_keys_Inr [OF ks]
  have "mset files = mset (map snd ks)" unfolding files by simp
  then show "mset files = mset ?fs" using sk by simp
  have key: "\<forall>kf \<in> set (sort_key fst ks). time_of L (fst (snd kf)) = fst kf"
    using sk by (auto simp: time_of_def)
  have "map (\<lambda>f. time_of L (fst f)) files = map (\<lambda>kf. time_of L (fst (snd kf))) (sort_key fst ks)"
    unfolding files by (simp add: comp_def)
  also have "\<dots> = map fst (sort_key fst ks)"
    using key by (intro map_cong) auto
  finally show "sorted (map (\<lambda>f. time_of L (fst f)) files)" by simp
  show "\<forall>f \<in> set files. \<exists>k. time_key L (fst f) = Inr k"
    unfolding files using sk by auto
qed

lemma csv_files_set:
  "csv_files L listing = Inr files \<Longrightarrow>
   set files = {f \<in> set listing. is_snapshot_name (fst f)}"
  using csv_files_Inr(1) [of L listing files] by (metis mset_eq_setD set_filter)

lemma csv_files_Inl:
  assumes "f \<in> set listing" "is_snapshot_name (fst f)" "time_key L (fst f) = Inl e"
  shows "csv_files L listing = Inl ValueError_int_literal"
proof -
  let ?fs = "filter (\<lambda>f. is_snapshot_name (fst f)) listing"
  have "f \<in> set ?fs" using assms by simp
  from sort_keys_fail [OF this assms(3)] obtain e' where e': "sort_keys L ?fs = Inl e'" by blast
  from sort_keys_Inl [OF e'] obtain f' where f': "f' \<in> set ?fs" "time_key L (fst f') = Inl e'"
    by blast
  have "e' \<noteq> IndexError" using snapshot_name_key [of "fst f'" L] f' by auto
  then have "e' = ValueError_int_literal" using time_key_errors [OF f'(2)] by simp
  then show ?thesis using e' by (simp add: csv_files_def)
qed

lemma process_files_handled:
  "\<exists>k. handled (stdout (snd (process_files L cfg fs w))) = handled (stdout w) @ take k (map fst fs)
       \<and> (fst (process_files L cfg fs w) = None \<longrightarrow> k = length fs)"
proof (induction fs arbitrary: w)
  case Nil
  show ?case by simp
next
  case (Cons f fs)
  obtain e w1 where pf: "process_file L cfg f w = (e, w1)" by (cases "process_file L cfg f w")
  have here: "(e \<noteq> None \<and> handled (stdout w1) = handled (stdout w))
            \<or> handled (stdout w1) = handled (stdout w) @ [fst f]"
    using process_file_cases [of cfg f L w] pf by (auto simp: handled_append)
  show ?case
  proof (cases e)
    case (Some err)
    then have eq: "process_files L cfg (f # fs) w = (Some err, w1)" using pf by simp
    from here show ?thesis
    proof
      assume "e \<noteq> None \<and> handled (stdout w1) = handled (stdout w)"
      then show ?thesis unfolding eq by (intro exI [of _ 0]) simp
    next
      assume "handled (stdout w1) = handled (stdout w) @ [fst f]"
      then show ?thesis unfolding eq by (intro exI [of _ 1]) simp
    qed
  next
    case None
    then have eq: "process_files L cfg (f # fs) w = process_files L cfg fs w1" using pf by simp
    from None here have h: "handled (stdout w1) = handled (stdout w) @ [fst f]" by simp
    from Cons.IH [of w1] obtain k where
      k: "handled (stdout (snd (process_files L cfg fs w1))) = handled (stdout w1) @ take k (map fst fs)"
         "fst (process_files L cfg fs w1) = None \<longrightarrow> k = length fs"
      by (elim exE conjE)
    show ?thesis unfolding eq using k h by (intro exI [of _ "Suc k"]) simp
  qed
qed

subsection \<open>What the sampler writes\<close>

lemma process_file_written_rows:
  assumes "out_files (snd (process_file L cfg f w)) = out_files w @ [(name, rows)]"
  shows "df_valid_of cfg (snd f) \<noteq> [] \<and>
         (\<exists>bb g'. select_rows L cfg (df_valid_of cfg (snd f))
                     (n_sample L cfg (length (df_valid_of cfg (snd f)))) (np_random w) = Inr (rows, bb, g'))"
  using process_file_cases [of cfg f L w] assms by auto

lemma process_file_written_by:
  "written_by w (snd (process_file L cfg f w)) = [] \<or>
   (\<exists>rows. written_by w (snd (process_file L cfg f w)) = [(output_name (fst f), rows)] \<and>
           out_files (snd (process_file L cfg f w)) = out_files w @ [(output_name (fst f), rows)])"
  using process_file_cases [of cfg f L w] by (auto simp: written_by_def)

lemma sample_sparse_data_written:
  assumes step: "\<And>f w rows. f \<in> set listing \<Longrightarrow> is_snapshot_name (fst f) \<Longrightarrow>
      out_files (snd (process_file L cfg f w)) = out_files w @ [(output_name (fst f), rows)] \<Longrightarrow>
      Q f rows"
  shows "\<forall>out \<in> set (written_by w (snd (sample_sparse_data L cfg listing w))).
           \<exists>f \<in> set listing. is_snapshot_name (fst f) \<and> fst out = output_name (fst f) \<and> Q f (snd out)"
proof (cases "csv_files L listing")
  case (Inl e)
  then show ?thesis by (simp add: sample_sparse_data_def written_by_def)
next
  case (Inr files)
  let ?w0 = "w\<lparr>made_dirs := made_dirs w @ [output_sparse_dir cfg]\<rparr>"
  have mem: "f \<in> set files \<Longrightarrow> f \<in> set listing \<and> is_snapshot_name (fst f)" for f
    using csv_files_set [OF Inr] by simp
  have "\<exists>new. out_files (snd (process_files L cfg files ?w0)) = out_files ?w0 @ new \<and>
           (\<forall>out \<in> set new. \<exists>f \<in> set files. fst out = output_name (fst f) \<and> Q f (snd out))"
    using step mem by (intro process_files_written) blast
  then obtain new where new: "out_files (snd (process_files L cfg files ?w0)) = out_files w @ new"
    "\<forall>out \<in> set new. \<exists>f \<in> set files. fst out = output_name (fst f) \<and> Q f (snd out)"
    by auto
  have "written_by w (snd (sample_sparse_data L cfg listing w)) = new"
    using Inr new(1) by (simp add: sample_sparse_data_def written_by_def)
  then show ?thesis using new(2) mem by blast
qed

text \<open>
  C7. Whatever the strategy, every row of every table the sampler writes has a concentration
  at or above the configured minimum: each written table is named after a snapshot of
  the input directory and holds only rows of that snapshot that passed the filter.
\<close>

theorem outputs_meet_threshold:
  "\<forall>out \<in> set (written_by w (snd (sample_sparse_data L cfg listing w))).
     (\<forall>r \<in> set (snd out). min_concentration cfg \<le> conc r) \<and>
     (\<exists>f \<in> set listing. is_snapshot_name (fst f) \<and> fst out = output_name (fst f) \<and>
                          set (snd out) \<subseteq> set (snd f))"
proof -
  have "\<forall>out \<in> set (written_by w (snd (sample_sparse_data L cfg listing w))).
          \<exists>f \<in> set listing. is_snapshot_name (fst f) \<and> fst out = output_name (fst f) \<and>
             set (snd out) \<subseteq> set (df_valid_of cfg (snd f))"
  proof (rule sample_sparse_data_written)
    fix f w rows
    assume "out_files (snd (process_file L cfg f w)) = out_files w @ [(output_name (fst f), rows)]"
    from process_file_written_rows [OF this]
    show "set rows \<subseteq> set (df_valid_of cfg (snd f))"
      using select_rows_props(1) by blast
  qed
  then show ?thesis by (fastforce simp: df_valid_of_def)
qed

lemma is_snapshot_name_iff:
  "is_snapshot_name f \<longleftrightarrow> (\<exists>rest. f = global_prefix @ rest) \<and> (\<exists>stem. f = stem @ ''.csv'')"
proof -
  have a: "startswith f p \<longleftrightarrow> (\<exists>rest. f = p @ rest)" for p
    unfolding startswith_def by (metis append_eq_conv_conj append_take_drop_id)
  have b: "endswith f p \<longleftrightarrow> (\<exists>stem. f = stem @ p)" for p
    unfolding endswith_def
    by (metis append_eq_conv_conj append_take_drop_id diff_add_inverse2 length_append
          le_add2 length_drop diff_diff_cancel)
  show ?thesis unfolding is_snapshot_name_def a b ..
qed

lemma select_rows_sampled:
  assumes ne: "df_valid_of cfg df \<noteq> []"
    and sel: "select_rows L cfg (df_valid_of cfg df)
                (n_sample L cfg (length (df_valid_of cfg df))) g = Inr (rows, bb, g')"
  shows "rows_as_sampled L cfg df rows"
proof -
  let ?v = "df_valid_of cfg df"
  let ?n = "n_sample L cfg (length ?v)"
  note p = select_rows_props [OF ne sel]
  show ?thesis
  proof (cases "sample_strategy cfg = ''uniform''")
    case False
    then show ?thesis using p(2,4) by (simp add: rows_as_sampled_def Let_def)
  next
    case True
    with sel obtain g1 where u: "uniform_select L ?v ?n g = Inr (rows, g1)"
      by (auto simp: select_rows_def split: sum.splits)
    have n1: "1 \<le> ?n" using p(3) p(5) [OF True] by linarith
    let ?cs = "take (nat ?n) (visited_cells L ?v ?n)"
    have rows: "rows = fst (pick_cells (binned_rows L ?v ?n) ?cs g)"
      using u uniform_select_exact [OF ne n1, of L g] by (metis Inr_inject fst_conv)
    have len: "length rows = min (nat ?n) (length (visited_cells L ?v ?n))"
      unfolding rows by (simp add: pick_cells_length min.commute)
    have cells: "\<forall>c \<in> set ?cs. cell_rows (binned_rows L ?v ?n) c \<noteq> []"
      using visited_cells_nonempty [of L ?v ?n] by (auto dest: in_set_takeD)
    have "\<forall>k \<in> set [0..<length rows].
            (rows ! k, visited_cells L ?v ?n ! k) \<in> set (binned_rows L ?v ?n)"
    proof
      fix k assume "k \<in> set [0..<length rows]"
      then have k: "k < length ?cs" using len by simp
      from pick_cells_rows [OF cells k, of g]
      show "(rows ! k, visited_cells L ?v ?n ! k) \<in> set (binned_rows L ?v ?n)"
        unfolding rows using k by simp
    qed
    then have "list_all (\<lambda>k. (rows ! k, visited_cells L ?v ?n ! k) \<in> set (binned_rows L ?v ?n))
                 [0..<length rows]"
      unfolding list_all_iff .
    then show ?thesis
      using True len p(2) p(5) [OF True]
      unfolding rows_as_sampled_def Let_def by simp
  qed
qed

lemma written_by_same:
  "out_files w1 = out_files w \<Longrightarrow> written_by w1 w' = written_by w w'"
  by (simp add: written_by_def)

lemma process_files_appends:
  "\<exists>new. out_files (snd (process_files L cfg fs w)) = out_files w @ new"
  using process_files_written [of fs L cfg "\<lambda>f rows. True" w] by auto

lemma count_in_range_total:
  assumes ne: "df_valid_of cfg df \<noteq> []" and r: "count_in_range L cfg df"
  shows "\<exists>rows bb g'. select_rows L cfg (df_valid_of cfg df)
           (n_sample L cfg (length (df_valid_of cfg df))) g = Inr (rows, bb, g')"
proof (cases "sample_strategy cfg = ''uniform''")
  case True
  then show ?thesis
    using r select_rows_total(2) [OF ne] by (simp add: count_in_range_def Let_def)
next
  case False
  then have "sample_strategy cfg \<in> {''lhs'', ''random''}"
    and "0 \<le> n_sample L cfg (length (df_valid_of cfg df))"
    and "n_sample L cfg (length (df_valid_of cfg df)) \<le> int (length (df_valid_of cfg df))"
    using r by (auto simp: count_in_range_def Let_def)
  then show ?thesis by (rule select_rows_total(1) [OF ne])
qed

lemma process_files_first:
  assumes pre: "\<forall>f \<in> set pre. df_valid_of cfg (snd f) = []"
    and ne: "df_valid_of cfg (snd f0) \<noteq> []"
    and r: "count_in_range L cfg (snd f0)"
  shows "\<exists>rows more. written_by w (snd (process_files L cfg (pre @ f0 # post) w))
           = (output_name (fst f0), rows) # more"
  using pre
proof (induction pre arbitrary: w)
  case Nil
  from count_in_range_total [OF ne r, of "np_random w"] obtain rows bb g' where
    sel: "select_rows L cfg (df_valid_of cfg (snd f0))
            (n_sample L cfg (length (df_valid_of cfg (snd f0)))) (np_random w) = Inr (rows, bb, g')"
    by blast
  note wr = process_file_write [OF ne sel]
  obtain e w1 where pf: "process_file L cfg f0 w = (e, w1)" by (cases "process_file L cfg f0 w")
  have o1: "out_files w1 = out_files w @ [(output_name (fst f0), rows)]" using wr(2) pf by simp
  show ?case
  proof (cases e)
    case (Some err)
    then have "process_files L cfg ([] @ f0 # post) w = (Some err, w1)" using pf by simp
    then show ?thesis using o1 by (simp add: written_by_def)
  next
    case None
    then have eq: "process_files L cfg ([] @ f0 # post) w = process_files L cfg post w1"
      using pf by simp
    from process_files_appends [of L cfg post w1] obtain new where
      "out_files (snd (process_files L cfg post w1)) = out_files w1 @ new" by blast
    then show ?thesis unfolding eq using o1 by (simp add: written_by_def)
  qed
next
  case (Cons f pre)
  then have e: "df_valid_of cfg (snd f) = []" by simp
  let ?w1 = "w\<lparr>stdout := stdout w @ [Warn (fst f)]\<rparr>"
  have eq: "process_files L cfg ((f # pre) @ f0 # post) w
              = process_files L cfg (pre @ f0 # post) ?w1"
    using process_file_skip [OF e, of L w] by simp
  have "written_by ?w1 (snd (process_files L cfg (pre @ f0 # post) ?w1))
          = written_by w (snd (process_files L cfg (pre @ f0 # post) ?w1))"
    by (rule written_by_same) simp
  then show ?case unfolding eq using Cons.IH [of ?w1] Cons.prems by simp
qed

lemma process_files_lhs_complete:
  assumes lhs: "sample_strategy cfg = ''lhs''"
    and r: "\<forall>f \<in> set fs. df_valid_of cfg (snd f) \<noteq> [] \<longrightarrow> count_in_range L cfg (snd f)"
  shows "fst (process_files L cfg fs w) = None \<and>
         (\<exists>new. out_files (snd (process_files L cfg fs w)) = out_files w @ new \<and>
                map fst new = map (\<lambda>f. output_name (fst f))
                                  (filter (\<lambda>f. df_valid_of cfg (snd f) \<noteq> []) fs))"
  using r
proof (induction fs arbitrary: w)
  case Nil
  show ?case by simp
next
  case (Cons f fs)
  show ?case
  proof (cases "df_valid_of cfg (snd f) = []")
    case True
    let ?w1 = "w\<lparr>stdout := stdout w @ [Warn (fst f)]\<rparr>"
    have eq: "process_files L cfg (f # fs) w = process_files L cfg fs ?w1"
      using process_file_skip [OF True, of L w] by simp
    show ?thesis unfolding eq using Cons.IH [of ?w1] Cons.prems True by simp
  next
    case False
    then have "count_in_range L cfg (snd f)" using Cons.prems by simp
    from count_in_range_total [OF False this, of "np_random w"] obtain rows bb g' where
      sel: "select_rows L cfg (df_valid_of cfg (snd f))
              (n_sample L cfg (length (df_valid_of cfg (snd f)))) (np_random w) = Inr (rows, bb, g')"
      by blast
    have bb: "bb \<noteq> None" using select_rows_props(6) [OF False sel] lhs by simp
    note wr = process_file_write [OF False sel]
    obtain e w1 where pf: "process_file L cfg f w = (e, w1)" by (cases "process_file L cfg f w")
    have e: "e = None" using wr(1) bb pf by simp
    have o1: "out_files w1 = out_files w @ [(output_name (fst f), rows)]" using wr(2) pf by simp
    have eq: "process_files L cfg (f # fs) w = process_files L cfg fs w1" using pf e by simp
    from Cons.IH [of w1] Cons.prems obtain new where
      n: "fst (process_files L cfg fs w1) = None"
         "out_files (snd (process_files L cfg fs w1)) = out_files w1 @ new"
         "map fst new = map (\<lambda>f. output_name (fst f))
                            (filter (\<lambda>f. df_valid_of cfg (snd f) \<noteq> []) fs)"
      by auto
    show ?thesis unfolding eq
      using n o1 False
      by (intro conjI exI [of _ "(output_name (fst f), rows) # new"]) simp_all
  qed
qed

text \<open>
  C1, as the code has it. The sample count \<open>n\<close> of a snapshot is the fixed count capped
  at the number of valid rows when a fixed count is given, and otherwise the truncated
  float product of the number of valid rows and the ratio, at least 1. Every table an
  invocation writes belongs to a snapshot of the input directory that has a valid row,
  has no more rows than that snapshot has valid rows, and has: under the Latin-hypercube
  and the random strategy exactly \<open>n\<close> rows; under the uniform strategy exactly
  \<open>min n c\<close> rows, at least one, where \<open>c\<close> is the number of non-empty bin cells
  and the \<open>k\<close>-th row is a row of the \<open>k\<close>-th non-empty cell in visiting order (the
  cells are pairwise different and are exactly the cells in which a valid row lies). The
  first snapshot in time order that has a valid row gets its table whenever \<open>n\<close> is in
  the range of the strategy (between 0 and the number of valid rows for Latin-hypercube
  and random, at least 1 for uniform). Under the Latin-hypercube strategy, when \<open>n\<close> is
  in range for every snapshot with a valid row, the invocation returns normally and
  writes one table for each such snapshot, in time order.
\<close>

theorem sample_count_by_strategy:
  "n_sample L cfg len
     = (case sample_num cfg of
          Some k \<Rightarrow> min k (int len)
        | None \<Rightarrow> max 1 (py_trunc (float_mul L (real len) (sample_ratio cfg)))) \<and>
   (\<forall>out \<in> set (written_by w (snd (sample_sparse_data L cfg listing w))).
      \<exists>f \<in> set listing. is_snapshot_name (fst f) \<and> fst out = output_name (fst f) \<and>
         df_valid_of cfg (snd f) \<noteq> [] \<and> rows_as_sampled L cfg (snd f) (snd out)) \<and>
   distinct (visited_cells L df n) \<and>
   set (visited_cells L df n) = snd ` set (binned_rows L df n) \<and>
   (\<forall>pre f0 post.
      csv_files L listing = Inr (pre @ f0 # post) \<and>
      (\<forall>f \<in> set pre. df_valid_of cfg (snd f) = []) \<and>
      df_valid_of cfg (snd f0) \<noteq> [] \<and> count_in_range L cfg (snd f0)
      \<longrightarrow> (\<exists>rows more. written_by w (snd (sample_sparse_data L cfg listing w))
                           = (output_name (fst f0), rows) # more)) \<and>
   (\<forall>files.
      sample_strategy cfg = ''lhs'' \<and> csv_files L listing = Inr files \<and>
      (\<forall>f \<in> set files. df_valid_of cfg (snd f) \<noteq> [] \<longrightarrow> count_in_range L cfg (snd f))
      \<longrightarrow> fst (sample_sparse_data L cfg listing w) = None \<and>
          map fst (written_by w (snd (sample_sparse_data L cfg listing w)))
            = map (\<lambda>f. output_name (fst f)) (filter (\<lambda>f. df_valid_of cfg (snd f) \<noteq> []) files))"
proof (intro conjI allI impI)
  show "n_sample L cfg len
     = (case sample_num cfg of
          Some k \<Rightarrow> min k (int len)
        | None \<Rightarrow> max 1 (py_trunc (float_mul L (real len) (sample_ratio cfg))))"
    by (simp add: n_sample_def)
  show "distinct (visited_cells L df n)" by (rule visited_cells_distinct)
  show "set (visited_cells L df n) = snd ` set (binned_rows L df n)" by (rule visited_cells_set)
  show "\<forall>out \<in> set (written_by w (snd (sample_sparse_data L cfg listing w))).
      \<exists>f \<in> set listing. is_snapshot_name (fst f) \<and> fst out = output_name (fst f) \<and>
         df_valid_of cfg (snd f) \<noteq> [] \<and> rows_as_sampled L cfg (snd f) (snd out)"
  proof (rule sample_sparse_data_written)
    fix f w rows
    assume "out_files (snd (process_file L cfg f w)) = out_files w @ [(output_name (fst f), rows)]"
    from process_file_written_rows [OF this] obtain bb g' where
      ne: "df_valid_of cfg (snd f) \<noteq> []" and
      sel: "select_rows L cfg (df_valid_of cfg (snd f))
              (n_sample L cfg (length (df_valid_of cfg (snd f)))) (np_random w) = Inr (rows, bb, g')"
      by blast
    show "df_valid_of cfg (snd f) \<noteq> [] \<and> rows_as_sampled L cfg (snd f) rows"
      using ne select_rows_sampled [OF ne sel] by simp
  qed
next
  fix pre f0 post
  assume a: "csv_files L listing = Inr (pre @ f0 # post) \<and>
      (\<forall>f \<in> set pre. df_valid_of cfg (snd f) = []) \<and>
      df_valid_of cfg (snd f0) \<noteq> [] \<and> count_in_range L cfg (snd f0)"
  let ?w0 = "w\<lparr>made_dirs := made_dirs w @ [output_sparse_dir cfg]\<rparr>"
  have eq: "sample_sparse_data L cfg listing w = process_files L cfg (pre @ f0 # post) ?w0"
    using a by (simp add: sample_sparse_data_def)
  have same: "written_by ?w0 (snd (process_files L cfg (pre @ f0 # post) ?w0))
                = written_by w (snd (process_files L cfg (pre @ f0 # post) ?w0))"
    by (rule written_by_same) simp
  from a have p: "\<forall>f \<in> set pre. df_valid_of cfg (snd f) = []"
    and ne: "df_valid_of cfg (snd f0) \<noteq> []" and r: "count_in_range L cfg (snd f0)"
    by simp_all
  show "\<exists>rows more. written_by w (snd (sample_sparse_data L cfg listing w))
                           = (output_name (fst f0), rows) # more"
    unfolding eq using process_files_first [OF p ne r, of ?w0 post] same by simp
next
  fix files
  assume a: "sample_strategy cfg = ''lhs'' \<and> csv_files L listing = Inr files \<and>
      (\<forall>f \<in> set files. df_valid_of cfg (snd f) \<noteq> [] \<longrightarrow> count_in_range L cfg (snd f))"
  let ?w0 = "w\<lparr>made_dirs := made_dirs w @ [output_sparse_dir cfg]\<rparr>"
  have eq: "sample_sparse_data L cfg listing w = process_files L cfg files ?w0"
    using a by (simp add: sample_sparse_data_def)
  from a have lhs: "sample_strategy cfg = ''lhs''"
    and r: "\<forall>f \<in> set files. df_valid_of cfg (snd f) \<noteq> [] \<longrightarrow> count_in_range L cfg (snd f)"
    by simp_all
  from process_files_lhs_complete [OF lhs r, of ?w0] obtain new where
    n: "fst (process_files L cfg files ?w0) = None"
       "out_files (snd (process_files L cfg files ?w0)) = out_files ?w0 @ new"
       "map fst new = map (\<lambda>f. output_name (fst f))
                          (filter (\<lambda>f. df_valid_of cfg (snd f) \<noteq> []) files)"
    by blast
  show "fst (sample_sparse_data L cfg listing w) = None" unfolding eq by (rule n(1))
  have "written_by w (snd (process_files L cfg files ?w0)) = new"
    using n(2) by (simp add: written_by_def)
  then show "map fst (written_by w (snd (sample_sparse_data L cfg listing w)))
            = map (\<lambda>f. output_name (fst f)) (filter (\<lambda>f. df_valid_of cfg (snd f) \<noteq> []) files)"
    unfolding eq using n(3) by simp
qed


text \<open>
  C5. Under the Latin-hypercube strategy the selected positions are positions of valid
  rows and no position occurs twice, the backfill included; there are exactly as many as
  requested; the selection succeeds whenever the requested count does not exceed the
  number of valid rows; and the rows taken are the rows at those positions.
\<close>

theorem lhs_indices_valid_distinct:
  assumes "df_valid \<noteq> []"
  shows "(\<forall>idxs g'. lhs_indices L df_valid n g = Inr (idxs, g') \<longrightarrow>
            distinct idxs \<and> set idxs \<subseteq> {0..<length df_valid} \<and> length idxs = n) \<and>
         (n \<le> length df_valid \<longrightarrow> (\<exists>idxs g'. lhs_indices L df_valid n g = Inr (idxs, g'))) \<and>
         (\<forall>rows g'. lhs_select L df_valid (int n) g = Inr (rows, g') \<longrightarrow>
            (\<exists>idxs. lhs_indices L df_valid n g = Inr (idxs, g') \<and> rows = map ((!) df_valid) idxs))"
proof (intro conjI allI impI)
  fix idxs g' assume r: "lhs_indices L df_valid n g = Inr (idxs, g')"
  from lhs_indices_props [OF assms r]
  show "distinct idxs" and "set idxs \<subseteq> {0..<length df_valid}" and "length idxs = n" by simp_all
next
  assume "n \<le> length df_valid"
  then show "\<exists>idxs g'. lhs_indices L df_valid n g = Inr (idxs, g')"
    by (rule lhs_indices_total [OF assms])
next
  fix rows g' assume "lhs_select L df_valid (int n) g = Inr (rows, g')"
  then obtain idxs where "lhs_indices L df_valid n g = Inr (idxs, g')"
    and "iloc df_valid idxs = Inr rows"
    by (auto simp: lhs_select_def split: sum.splits)
  then show "\<exists>idxs. lhs_indices L df_valid n g = Inr (idxs, g') \<and> rows = map ((!) df_valid) idxs"
    using iloc_props by blast
qed

lemma process_files_unknown:
  assumes "sample_strategy cfg \<notin> {''lhs'', ''random'', ''uniform''}"
  shows "process_files L cfg fs w =
           (if \<exists>f \<in> set fs. df_valid_of cfg (snd f) \<noteq> [] then Some ValueError_strategy else None,
            w\<lparr>stdout := stdout w @ map (\<lambda>f. Warn (fst f))
                                       (takeWhile (\<lambda>f. df_valid_of cfg (snd f) = []) fs)\<rparr>)"
proof (induction fs arbitrary: w)
  case Nil
  show ?case by simp
next
  case (Cons f fs)
  show ?case
  proof (cases "df_valid_of cfg (snd f) = []")
    case True
    have "process_files L cfg (f # fs) w
            = process_files L cfg fs (w\<lparr>stdout := stdout w @ [Warn (fst f)]\<rparr>)"
      using process_file_skip [OF True, of L w] by simp
    then show ?thesis using True Cons.IH [of "w\<lparr>stdout := stdout w @ [Warn (fst f)]\<rparr>"] by simp
  next
    case False
    have "process_file L cfg f w = (Some ValueError_strategy, w)"
      using False select_rows_unknown [OF assms] by (intro process_file_raise) auto
    then show ?thesis using False by simp
  qed
qed

text \<open>
  C4, as the code has it. With a strategy name other than lhs, random and uniform the
  sampler writes no table. The configuration error is raised inside the loop, at the
  first snapshot that has a valid row, after the snapshots before it were skipped with
  their warnings; when no snapshot has a valid row the invocation returns normally; when
  a file name's time does not parse, that error is raised instead.
\<close>

theorem unknown_strategy_no_output:
  assumes "sample_strategy cfg \<notin> {''lhs'', ''random'', ''uniform''}"
  shows "out_files (snd (sample_sparse_data L cfg listing w)) = out_files w \<and>
         (\<forall>files. csv_files L listing = Inr files \<longrightarrow>
            fst (sample_sparse_data L cfg listing w)
              = (if \<exists>f \<in> set files. df_valid_of cfg (snd f) \<noteq> []
                 then Some ValueError_strategy else None) \<and>
            stdout (snd (sample_sparse_data L cfg listing w))
              = stdout w @ map (\<lambda>f. Warn (fst f))
                               (takeWhile (\<lambda>f. df_valid_of cfg (snd f) = []) files)) \<and>
         (\<forall>e. csv_files L listing = Inl e \<longrightarrow>
            sample_sparse_data L cfg listing w
              = (Some e, w\<lparr>made_dirs := made_dirs w @ [output_sparse_dir cfg]\<rparr>))"
proof (cases "csv_files L listing")
  case (Inl e)
  then show ?thesis by (simp add: sample_sparse_data_def)
next
  case (Inr files)
  then show ?thesis
    by (simp add: sample_sparse_data_def process_files_unknown [OF assms])
qed

text \<open>
  The work list of the sampler, lines 23 to 26: exactly the files of the input directory
  whose names start with the global-concentration prefix and end with .csv, in ascending
  order of the integer time in the name; the loop runs over that list and handles a
  prefix of it in that order, all of it when the invocation returns normally. If the time
  of any matching name does not parse as an integer, the invocation fails with that error
  after creating the output directory only: no snapshot is processed.
\<close>

theorem snapshot_worklist:
  "(\<forall>files. csv_files L listing = Inr files \<longrightarrow>
      mset files = mset (filter (\<lambda>f. is_snapshot_name (fst f)) listing) \<and>
      sorted (map (\<lambda>f. time_of L (fst f)) files) \<and>
      sample_sparse_data L cfg listing w
        = process_files L cfg files (w\<lparr>made_dirs := made_dirs w @ [output_sparse_dir cfg]\<rparr>) \<and>
      (\<exists>k. handled (stdout (snd (sample_sparse_data L cfg listing w)))
              = handled (stdout w) @ take k (map fst files) \<and>
           (fst (sample_sparse_data L cfg listing w) = None \<longrightarrow> k = length files))) \<and>
   (\<forall>f \<in> set listing. is_snapshot_name (fst f) \<longrightarrow>
      (\<forall>e. time_key L (fst f) = Inl e \<longrightarrow>
         sample_sparse_data L cfg listing w
           = (Some ValueError_int_literal, w\<lparr>made_dirs := made_dirs w @ [output_sparse_dir cfg]\<rparr>)))"
proof (intro conjI allI impI ballI)
  fix files assume f: "csv_files L listing = Inr files"
  show "mset files = mset (filter (\<lambda>f. is_snapshot_name (fst f)) listing)"
    by (rule csv_files_Inr(1) [OF f])
  show "sorted (map (\<lambda>f. time_of L (fst f)) files)"
    by (rule csv_files_Inr(2) [OF f])
  let ?w0 = "w\<lparr>made_dirs := made_dirs w @ [output_sparse_dir cfg]\<rparr>"
  show eq: "sample_sparse_data L cfg listing w = process_files L cfg files ?w0"
    using f by (simp add: sample_sparse_data_def)
  show "\<exists>k. handled (stdout (snd (sample_sparse_data L cfg listing w)))
              = handled (stdout w) @ take k (map fst files) \<and>
           (fst (sample_sparse_data L cfg listing w) = None \<longrightarrow> k = length files)"
    unfolding eq using process_files_handled [of L cfg files ?w0] by simp
next
  fix f e assume "f \<in> set listing" "is_snapshot_name (fst f)" "time_key L (fst f) = Inl e"
  from csv_files_Inl [OF this]
  show "sample_sparse_data L cfg listing w
          = (Some ValueError_int_literal, w\<lparr>made_dirs := made_dirs w @ [output_sparse_dir cfg]\<rparr>)"
    by (simp add: sample_sparse_data_def)
qed

text \<open>Random strategy: the global generator plays no part.\<close>

lemma random_ignores_global_generator:
  assumes "sample_strategy cfg = ''random''"
  shows "fst (process_files L cfg fs (w\<lparr>np_random := g1\<rparr>)) = fst (process_files L cfg fs (w\<lparr>np_random := g2\<rparr>))
       \<and> out_files (snd (process_files L cfg fs (w\<lparr>np_random := g1\<rparr>)))
           = out_files (snd (process_files L cfg fs (w\<lparr>np_random := g2\<rparr>)))"
proof -
  have sel: "select_rows L cfg df n g = (case df_sample_seeded L 42 df n of
           Inl e \<Rightarrow> Inl e | Inr df_sample \<Rightarrow> Inr (df_sample, None, g))" for df n g
    using assms by (simp add: select_rows_def)
  have pf: "process_file L cfg f (w\<lparr>np_random := g\<rparr>)
              = (fst (process_file L cfg f w), (snd (process_file L cfg f w))\<lparr>np_random := g\<rparr>)" for f w g
    by (simp add: process_file_def Let_def sel split: sum.splits)
  have "process_files L cfg fs (w\<lparr>np_random := g\<rparr>)
          = (fst (process_files L cfg fs w), (snd (process_files L cfg fs w))\<lparr>np_random := g\<rparr>)" for w g
  proof (induction fs arbitrary: w)
    case Nil
    show ?case by simp
  next
    case (Cons f fs)
    obtain e w1 where p: "process_file L cfg f w = (e, w1)" by (cases "process_file L cfg f w")
    show ?case using p Cons.IH [of w1] by (cases e) (simp_all add: pf)
  qed
  then show ?thesis by simp
qed

section \<open>Properties of the field generator\<close>








lemma total_conc_zero: "total_conc G sc xg yg v 0 calls = (zeros_like xg, calls)"
  by (simp add: total_conc_def)


lemma source_args_t: "p_t (source_args sc v t s) = t"
  by (simp add: source_args_def)

lemma superpose_snd:
  "snd (superpose G sc xg yg v t ss st) = snd st @ map (source_args sc v t) ss"
  by (induction ss arbitrary: st) auto

lemma superpose_fst:
  "fst st1 = fst st2 \<Longrightarrow>
   fst (superpose G sc xg yg v t ss st1) = fst (superpose G sc xg yg v t ss st2)"
  by (induction ss arbitrary: st1 st2) auto

lemma total_conc_calls:
  "\<exists>new. snd (total_conc G sc xg yg v t calls) = calls @ new \<and> (\<forall>a \<in> set new. p_t a = t \<and> t \<noteq> 0)"
proof (cases "t = 0")
  case True
  then show ?thesis by (simp add: total_conc_def)
next
  case False
  have "snd (total_conc G sc xg yg v t calls)
               = calls @ map (source_args sc v t) (zip (sources sc) (zip (c0_list sc) (Qa_list sc)))"
    using False by (simp add: total_conc_def superpose_snd)
  then show ?thesis using False by (auto simp: source_args_t)
qed

lemma all_concentrations_props:
  "length (fst (all_concentrations G sc xg yg v ts calls)) = length ts \<and>
   (\<forall>k < length ts. fst (all_concentrations G sc xg yg v ts calls) ! k
                      = fst (total_conc G sc xg yg v (ts ! k) [])) \<and>
   (\<exists>new. snd (all_concentrations G sc xg yg v ts calls) = calls @ new \<and>
          (\<forall>a \<in> set new. p_t a \<noteq> 0))"
proof (induction ts arbitrary: calls)
  case Nil
  show ?case by simp
next
  case (Cons t ts)
  obtain field calls1 where tc: "total_conc G sc xg yg v t calls = (field, calls1)"
    by (cases "total_conc G sc xg yg v t calls")
  obtain rest calls2 where ac: "all_concentrations G sc xg yg v ts calls1 = (rest, calls2)"
    by (cases "all_concentrations G sc xg yg v ts calls1")
  have eq: "all_concentrations G sc xg yg v (t # ts) calls = (field # rest, calls2)"
    using tc ac by simp
  have fld: "field = fst (total_conc G sc xg yg v t [])"
  proof (cases "t = 0")
    case True
    then show ?thesis using tc by (simp add: total_conc_def)
  next
    case False
    have "fst (superpose G sc xg yg v t ss (tot, calls)) = fst (superpose G sc xg yg v t ss (tot, []))"
      for ss tot
      by (rule superpose_fst) simp
    then show ?thesis using tc False by (simp add: total_conc_def) (metis fst_conv)
  qed
  from total_conc_calls [of G sc xg yg v t calls] tc
  obtain new1 where n1: "calls1 = calls @ new1" "\<forall>a \<in> set new1. p_t a \<noteq> 0" by auto
  from Cons.IH [of calls1] ac
  have l: "length rest = length ts"
    and nth: "\<forall>k < length ts. rest ! k = fst (total_conc G sc xg yg v (ts ! k) [])"
    and "\<exists>new. calls2 = calls1 @ new \<and> (\<forall>a \<in> set new. p_t a \<noteq> 0)"
    by simp_all
  then obtain new2 where n2: "calls2 = calls1 @ new2" "\<forall>a \<in> set new2. p_t a \<noteq> 0" by blast
  have "calls2 = calls @ (new1 @ new2) \<and> (\<forall>a \<in> set (new1 @ new2). p_t a \<noteq> 0)"
    using n1 n2 by auto
  then have c: "\<exists>new. calls2 = calls @ new \<and> (\<forall>a \<in> set new. p_t a \<noteq> 0)" by blast
  have "\<forall>k < length (t # ts). (field # rest) ! k = fst (total_conc G sc xg yg v ((t # ts) ! k) [])"
    using fld nth by (auto simp: nth_Cons split: nat.splits)
  then show ?case unfolding eq using l c by simp
qed

lemma save_all_files:
  "\<exists>new. gen_files (snd (save_all G xg yg lv tfs w)) = gen_files w @ new \<and>
         (\<forall>t tab. CsvTable t tab \<in> set new \<longrightarrow>
            (\<exists>field. (t, field) \<in> set tfs \<and> tab = global_df xg yg field)) \<and>
         point2_calls (snd (save_all G xg yg lv tfs w)) = point2_calls w"
proof (induction tfs arbitrary: w)
  case Nil
  show ?case by simp
next
  case (Cons tf tfs)
  let ?csv = "CsvTable (fst tf) (global_df xg yg (snd tf))"
  let ?w1 = "w\<lparr>gen_files := gen_files w @ [?csv]\<rparr>"
  show ?case
  proof (cases "contourf_raises G (snd tf) lv")
    case (Some e)
    then have eq: "save_all G xg yg lv (tf # tfs) w = (Some e, ?w1)" by (simp add: Let_def)
    have "(fst tf, snd tf) \<in> set (tf # tfs)" by simp
    then show ?thesis unfolding eq
      by (intro exI [of _ "[?csv]"]) (auto intro!: exI [of _ "snd tf"])
  next
    case None
    let ?w2 = "?w1\<lparr>gen_files := gen_files ?w1 @ [ContourPlot (fst tf)]\<rparr>"
    have eq: "save_all G xg yg lv (tf # tfs) w = save_all G xg yg lv tfs ?w2"
      using None by (simp add: Let_def)
    from Cons.IH [of ?w2] obtain new where
      n: "gen_files (snd (save_all G xg yg lv tfs ?w2)) = gen_files ?w2 @ new"
         "\<forall>t tab. CsvTable t tab \<in> set new \<longrightarrow>
            (\<exists>field. (t, field) \<in> set tfs \<and> tab = global_df xg yg field)"
         "point2_calls (snd (save_all G xg yg lv tfs ?w2)) = point2_calls ?w2"
      by blast
    have mem: "(fst tf, snd tf) \<in> set (tf # tfs)" by simp
    show ?thesis unfolding eq
    proof (intro exI [of _ "[?csv, ContourPlot (fst tf)] @ new"] conjI allI impI)
      show "gen_files (snd (save_all G xg yg lv tfs ?w2))
              = gen_files w @ [?csv, ContourPlot (fst tf)] @ new"
        using n(1) by simp
      show "point2_calls (snd (save_all G xg yg lv tfs ?w2)) = point2_calls w"
        using n(3) by simp
      fix t tab assume "CsvTable t tab \<in> set ([?csv, ContourPlot (fst tf)] @ new)"
      then consider "t = fst tf \<and> tab = global_df xg yg (snd tf)" | "CsvTable t tab \<in> set new"
        by auto
      then show "\<exists>field. (t, field) \<in> set (tf # tfs) \<and> tab = global_df xg yg field"
      proof cases
        case 1
        then show ?thesis using mem by blast
      next
        case 2
        then show ?thesis using n(2) by auto
      qed
    qed
  qed
qed

lemma save_results_files:
  "\<exists>new. gen_files (snd (save_results G sc xg yg all_conc w)) = gen_files w @ new \<and>
         (\<forall>t tab. CsvTable t tab \<in> set new \<longrightarrow>
            (\<exists>field. (t, field) \<in> set (zip (obs_times sc) all_conc) \<and> tab = global_df xg yg field)) \<and>
         point2_calls (snd (save_results G sc xg yg all_conc w)) = point2_calls w"
proof (cases "np_max_each all_conc")
  case (Inl e)
  then show ?thesis by (simp add: save_results_def)
next
  case (Inr maxima)
  show ?thesis
  proof (cases "np_max maxima")
    case (Inl e)
    then show ?thesis using Inr by (simp add: save_results_def)
  next
    case (Inr m)
    let ?sa = "save_all G xg yg (linspace 0 (m * 1.1) 50) (zip (obs_times sc) all_conc) w"
    from save_all_files [of G xg yg "linspace 0 (m * 1.1) 50" "zip (obs_times sc) all_conc" w]
    obtain new where
      n: "gen_files (snd ?sa) = gen_files w @ new"
         "\<forall>t tab. CsvTable t tab \<in> set new \<longrightarrow>
            (\<exists>field. (t, field) \<in> set (zip (obs_times sc) all_conc) \<and> tab = global_df xg yg field)"
         "point2_calls (snd ?sa) = point2_calls w"
      by blast
    obtain e w' where sa: "?sa = (e, w')" by (cases ?sa)
    show ?thesis
    proof (cases e)
      case (Some err)
      then have "save_results G sc xg yg all_conc w = (Some err, w')"
        using \<open>np_max_each all_conc = Inr maxima\<close> Inr sa by (simp add: save_results_def)
      then show ?thesis using n sa by auto
    next
      case None
      then have eq: "save_results G sc xg yg all_conc w
                       = (None, w'\<lparr>gen_files := gen_files w' @ [SummaryPlot]\<rparr>)"
        using \<open>np_max_each all_conc = Inr maxima\<close> Inr sa by (simp add: save_results_def)
      show ?thesis unfolding eq using n sa
        by (intro exI [of _ "new @ [SummaryPlot]"]) auto
    qed
  qed
qed

lemma zip_map_mem: "(t, x) \<in> set (zip ts xs) \<Longrightarrow> length xs = length ts \<Longrightarrow>
  \<forall>k < length ts. xs ! k = F (ts ! k) \<Longrightarrow> x = F t"
  by (auto simp: in_set_zip)

lemma create_files:
  "\<exists>new. gen_files (snd (create_contamination_scenario G sc w)) = gen_files w @ new \<and>
     (\<forall>t tab. CsvTable t tab \<in> set new \<longrightarrow>
        length (c0_list sc) = length (sources sc) \<and> length (Qa_list sc) = length (sources sc) \<and>
        (\<exists>xg yg. make_grid sc = Inr (xg, yg) \<and>
           tab = global_df xg yg (fst (total_conc G sc xg yg (K_aa sc / theta sc) t []))))"
proof -
  consider (bad) "length (c0_list sc) \<noteq> length (sources sc) \<or> length (Qa_list sc) \<noteq> length (sources sc)"
    | (zero) "length (c0_list sc) = length (sources sc)" "length (Qa_list sc) = length (sources sc)"
        "theta sc = 0"
    | (nogrid) e where "length (c0_list sc) = length (sources sc)"
        "length (Qa_list sc) = length (sources sc)" "theta sc \<noteq> 0" "make_grid sc = Inl e"
    | (run) xg yg where "length (c0_list sc) = length (sources sc)"
        "length (Qa_list sc) = length (sources sc)" "theta sc \<noteq> 0" "make_grid sc = Inr (xg, yg)"
    by (cases "make_grid sc") auto
  then show ?thesis
  proof cases
    case bad
    then have "snd (create_contamination_scenario G sc w) = w"
      by (auto simp: create_contamination_scenario_def)
    then show ?thesis by simp
  next
    case zero
    then show ?thesis
      by (intro exI [of _ "[ParamLog False]"]) (simp add: create_contamination_scenario_def Let_def)
  next
    case nogrid
    then show ?thesis
      by (intro exI [of _ "[ParamLog True]"]) (simp add: create_contamination_scenario_def Let_def)
  next
    case run
    let ?v = "K_aa sc / theta sc"
    let ?w2 = "w\<lparr>gen_dirs := gen_dirs w @ [scene_name sc @ ''/csv_results'', scene_name sc @ ''/plot_results''],
                  gen_files := gen_files w @ [ParamLog True]\<rparr>"
    let ?comp = "all_concentrations G sc xg yg ?v (obs_times sc) (point2_calls ?w2)"
    let ?w3 = "?w2\<lparr>point2_calls := snd ?comp\<rparr>"
    have eq: "create_contamination_scenario G sc w = save_results G sc xg yg (fst ?comp) ?w3"
      using run by (simp add: create_contamination_scenario_def Let_def)
    from save_results_files [of G sc xg yg "fst ?comp" ?w3] obtain new where
      n: "gen_files (snd (save_results G sc xg yg (fst ?comp) ?w3)) = gen_files ?w3 @ new"
         "\<forall>t tab. CsvTable t tab \<in> set new \<longrightarrow>
            (\<exists>field. (t, field) \<in> set (zip (obs_times sc) (fst ?comp)) \<and> tab = global_df xg yg field)"
      by blast
    note ac = all_concentrations_props [of G sc xg yg ?v "obs_times sc" "point2_calls ?w2"]
    have tabs: "\<forall>t tab. CsvTable t tab \<in> set ([ParamLog True] @ new) \<longrightarrow>
                  tab = global_df xg yg (fst (total_conc G sc xg yg ?v t []))"
    proof (intro allI impI)
      fix t tab assume "CsvTable t tab \<in> set ([ParamLog True] @ new)"
      then have "CsvTable t tab \<in> set new" by simp
      with n(2) obtain field where f: "(t, field) \<in> set (zip (obs_times sc) (fst ?comp))"
        "tab = global_df xg yg field" by blast
      have "field = fst (total_conc G sc xg yg ?v t [])"
        using zip_map_mem [OF f(1), of "\<lambda>t. fst (total_conc G sc xg yg ?v t [])"] ac by simp
      then show "tab = global_df xg yg (fst (total_conc G sc xg yg ?v t []))" using f(2) by simp
    qed
    show ?thesis unfolding eq
      using n(1) tabs run by (intro exI [of _ "[ParamLog True] @ new"]) simp
  qed
qed

lemma create_calls:
  "\<exists>new. point2_calls (snd (create_contamination_scenario G sc w)) = point2_calls w @ new \<and>
         (\<forall>a \<in> set new. p_t a \<noteq> 0)"
proof -
  consider (bad) "length (c0_list sc) \<noteq> length (sources sc) \<or> length (Qa_list sc) \<noteq> length (sources sc)"
    | (zero) "length (c0_list sc) = length (sources sc)" "length (Qa_list sc) = length (sources sc)"
        "theta sc = 0"
    | (nogrid) e where "length (c0_list sc) = length (sources sc)"
        "length (Qa_list sc) = length (sources sc)" "theta sc \<noteq> 0" "make_grid sc = Inl e"
    | (run) xg yg where "length (c0_list sc) = length (sources sc)"
        "length (Qa_list sc) = length (sources sc)" "theta sc \<noteq> 0" "make_grid sc = Inr (xg, yg)"
    by (cases "make_grid sc") auto
  then show ?thesis
  proof cases
    case bad
    then have "snd (create_contamination_scenario G sc w) = w"
      by (auto simp: create_contamination_scenario_def)
    then show ?thesis by simp
  next
    case zero
    then show ?thesis by (simp add: create_contamination_scenario_def Let_def)
  next
    case nogrid
    then show ?thesis by (simp add: create_contamination_scenario_def Let_def)
  next
    case run
    let ?v = "K_aa sc / theta sc"
    let ?w2 = "w\<lparr>gen_dirs := gen_dirs w @ [scene_name sc @ ''/csv_results'', scene_name sc @ ''/plot_results''],
                  gen_files := gen_files w @ [ParamLog True]\<rparr>"
    let ?comp = "all_concentrations G sc xg yg ?v (obs_times sc) (point2_calls ?w2)"
    let ?w3 = "?w2\<lparr>point2_calls := snd ?comp\<rparr>"
    have eq: "create_contamination_scenario G sc w = save_results G sc xg yg (fst ?comp) ?w3"
      using run by (simp add: create_contamination_scenario_def Let_def)
    have "point2_calls (snd (save_results G sc xg yg (fst ?comp) ?w3)) = snd ?comp"
      using save_results_files [of G sc xg yg "fst ?comp" ?w3] by auto
    then show ?thesis unfolding eq
      using all_concentrations_props [of G sc xg yg ?v "obs_times sc" "point2_calls ?w2"] by simp
  qed
qed

lemma zeros_like_all_zero: "\<forall>c \<in> set (concat (zeros_like a)). c = 0"
  by (auto simp: zeros_like_def)

lemma global_df_conc: "r \<in> set (global_df xg yg field) \<Longrightarrow> conc r \<in> set (concat field)"
  by (auto simp: global_df_def dest!: set_zip_rightD)

text \<open>
  C6. When the source-coordinate list, the concentration list and the injection-rate
  list do not all have the same length, the generator raises a validation error and
  leaves the world as it was: no directory, no parameter log, no table, no plot, and no
  call of the evaluator.
\<close>

theorem mismatched_lengths_rejected:
  assumes "\<not> (length (c0_list sc) = length (sources sc) \<and> length (Qa_list sc) = length (sources sc))"
  shows "snd (create_contamination_scenario G sc w) = w \<and>
         (fst (create_contamination_scenario G sc w) = Some ValueError_c0_length \<or>
          fst (create_contamination_scenario G sc w) = Some ValueError_Qa_length)"
  using assms by (auto simp: create_contamination_scenario_def)

text \<open>
  C8. The field computed for time zero is the all-zero array of the grid's shape, and
  computing it makes no call of the evaluator; every table the generator writes for time
  zero has concentration zero in every row, and no evaluator call of a run is made for
  time zero.
\<close>

theorem time_zero_field:
  "total_conc G sc x_grid y_grid v 0 calls = (zeros_like x_grid, calls) \<and>
   map length (zeros_like x_grid) = map length x_grid \<and>
   (\<forall>c \<in> set (concat (zeros_like x_grid)). c = 0) \<and>
   (\<forall>tab. CsvTable 0 tab \<in> set (gen_written w (snd (create_contamination_scenario G sc w))) \<longrightarrow>
      (\<forall>r \<in> set tab. conc r = 0)) \<and>
   (\<forall>a \<in> set (gen_called w (snd (create_contamination_scenario G sc w))). p_t a \<noteq> 0)"
proof (intro conjI allI impI)
  show "total_conc G sc x_grid y_grid v 0 calls = (zeros_like x_grid, calls)"
    by (rule total_conc_zero)
  show "map length (zeros_like x_grid) = map length x_grid"
    by (simp add: zeros_like_def comp_def)
  show "\<forall>c \<in> set (concat (zeros_like x_grid)). c = 0" by (rule zeros_like_all_zero)
  show "\<forall>a \<in> set (gen_called w (snd (create_contamination_scenario G sc w))). p_t a \<noteq> 0"
    using create_calls [of G sc w] by (auto simp: gen_called_def)
next
  fix tab
  assume "CsvTable 0 tab \<in> set (gen_written w (snd (create_contamination_scenario G sc w)))"
  moreover from create_files [of G sc w] obtain new where
    n: "gen_files (snd (create_contamination_scenario G sc w)) = gen_files w @ new"
       "\<forall>t tab. CsvTable t tab \<in> set new \<longrightarrow>
          length (c0_list sc) = length (sources sc) \<and> length (Qa_list sc) = length (sources sc) \<and>
          (\<exists>xg yg. make_grid sc = Inr (xg, yg) \<and>
             tab = global_df xg yg (fst (total_conc G sc xg yg (K_aa sc / theta sc) t [])))"
    by blast
  ultimately have "CsvTable 0 tab \<in> set new" by (simp add: gen_written_def)
  with n(2) obtain xg yg where
    "tab = global_df xg yg (fst (total_conc G sc xg yg (K_aa sc / theta sc) 0 []))"
    by blast
  then have tab: "tab = global_df xg yg (zeros_like xg)" by (simp add: total_conc_zero)
  show "\<forall>r \<in> set tab. conc r = 0"
    unfolding tab using global_df_conc zeros_like_all_zero by blast
qed


section \<open>Concrete runs\<close>

subsection \<open>The sampler\<close>

text \<open>
  C1 as stated fails under the uniform strategy: with a fixed count of 2 and three valid
  rows, the one bin per axis holds all rows and the written table has one row, neither
  the requested 2 nor the 3 valid rows.
\<close>

theorem uniform_count_counterexample:
  "sample_strategy (cfg0 ''uniform'') = ''uniform'' \<and>
   sample_num (cfg0 ''uniform'') = Some 2 \<and>
   length (df_valid_of (cfg0 ''uniform'') table3) = 3 \<and>
   n_sample lib0 (cfg0 ''uniform'') 3 = 2 \<and>
   written_by world0
     (snd (sample_sparse_data lib0 (cfg0 ''uniform'') [(snapshot_name ''1'', table3)] world0))
     = [(output_name (snapshot_name ''1''), [mk_row 0 0 1])]"
  by code_simp

text \<open>The sample-count theorem at runs of the uniform strategy (four cells, fixed count 4),
  of the random strategy (the first snapshot with a valid row) and of the Latin-hypercube
  strategy (three snapshots, one without a valid row).\<close>

theorem sample_count_by_strategy_witness:
  "written_by world0
     (snd (sample_sparse_data lib0 (cfg4 ''uniform'') [(snapshot_name ''1'', table4)] world0))
     = [(output_name (snapshot_name ''1''),
         [mk_row 0 0 1, mk_row 0 3 3, mk_row 3 0 2, mk_row 3 3 4])] \<and>
   n_sample lib0 (cfg4 ''uniform'') (length (df_valid_of (cfg4 ''uniform'') table4)) = 4 \<and>
   visited_cells lib0 (df_valid_of (cfg4 ''uniform'') table4) 4 = [(0, 0), (0, 1), (1, 0), (1, 1)] \<and>
   length [mk_row 0 0 1, mk_row 0 3 3, mk_row 3 0 2, mk_row 3 3 4]
     = min (nat 4) (length (visited_cells lib0 (df_valid_of (cfg4 ''uniform'') table4) 4)) \<and>
   fst (sample_sparse_data lib0 (cfg4 ''lhs'')
          [(snapshot_name ''2'', table4), (snapshot_name ''1'', table_low),
           (snapshot_name ''3'', table3)] world0) = None \<and>
   map fst (written_by world0 (snd (sample_sparse_data lib0 (cfg4 ''lhs'')
          [(snapshot_name ''2'', table4), (snapshot_name ''1'', table_low),
           (snapshot_name ''3'', table3)] world0)))
     = [output_name (snapshot_name ''2''), output_name (snapshot_name ''3'')] \<and>
   map fst (take 1 (written_by world0 (snd (sample_sparse_data lib0 (cfg0 ''random'')
          [(snapshot_name ''3'', table3), (snapshot_name ''1'', table_low),
           (snapshot_name ''2'', table3)] world0))))
     = [output_name (snapshot_name ''2'')]"
proof -
  let ?lu = "[(snapshot_name ''1'', table4)]"
  let ?ll = "[(snapshot_name ''2'', table4), (snapshot_name ''1'', table_low),
              (snapshot_name ''3'', table3)]"
  let ?rows = "[mk_row 0 0 1, mk_row 0 3 3, mk_row 3 0 2, mk_row 3 3 4]"
  have ev: "written_by world0 (snd (sample_sparse_data lib0 (cfg4 ''uniform'') ?lu world0))
              = [(output_name (snapshot_name ''1''), ?rows)]"
    by code_simp
  have n: "n_sample lib0 (cfg4 ''uniform'') (length (df_valid_of (cfg4 ''uniform'') table4)) = 4"
    by code_simp
  have vc: "visited_cells lib0 (df_valid_of (cfg4 ''uniform'') table4) 4
              = [(0, 0), (0, 1), (1, 0), (1, 1)]"
    by code_simp
  have s: "sample_strategy (cfg4 ''uniform'') = ''uniform''" by (simp add: cfg4_def)
  note u = sample_count_by_strategy [of lib0 "cfg4 ''uniform''" 0 world0 ?lu "[]" 0]
  from u have "\<forall>out \<in> set (written_by world0
                    (snd (sample_sparse_data lib0 (cfg4 ''uniform'') ?lu world0))).
      \<exists>f \<in> set ?lu. is_snapshot_name (fst f) \<and> fst out = output_name (fst f) \<and>
         df_valid_of (cfg4 ''uniform'') (snd f) \<noteq> [] \<and>
         rows_as_sampled lib0 (cfg4 ''uniform'') (snd f) (snd out)"
    by blast
  then have "rows_as_sampled lib0 (cfg4 ''uniform'') table4 ?rows" unfolding ev by simp
  then have len: "length ?rows
     = min (nat 4) (length (visited_cells lib0 (df_valid_of (cfg4 ''uniform'') table4) 4))"
    unfolding rows_as_sampled_def Let_def n s by simp
  have files: "csv_files lib0 ?ll
                 = Inr [(snapshot_name ''1'', table_low), (snapshot_name ''2'', table4),
                        (snapshot_name ''3'', table3)]"
    by code_simp
  have v1: "df_valid_of (cfg4 ''lhs'') table_low = []" by code_simp
  have v2: "df_valid_of (cfg4 ''lhs'') table4 \<noteq> []" by code_simp
  have v3: "df_valid_of (cfg4 ''lhs'') table3 \<noteq> []" by code_simp
  have r2: "count_in_range lib0 (cfg4 ''lhs'') table4" by code_simp
  have r3: "count_in_range lib0 (cfg4 ''lhs'') table3" by code_simp
  have sl: "sample_strategy (cfg4 ''lhs'') = ''lhs''" by (simp add: cfg4_def)
  note l = sample_count_by_strategy [of lib0 "cfg4 ''lhs''" 0 world0 ?ll "[]" 0]
  from l have "sample_strategy (cfg4 ''lhs'') = ''lhs'' \<and>
      csv_files lib0 ?ll = Inr [(snapshot_name ''1'', table_low), (snapshot_name ''2'', table4),
                        (snapshot_name ''3'', table3)] \<and>
      (\<forall>f \<in> set [(snapshot_name ''1'', table_low), (snapshot_name ''2'', table4),
                        (snapshot_name ''3'', table3)].
          df_valid_of (cfg4 ''lhs'') (snd f) \<noteq> [] \<longrightarrow> count_in_range lib0 (cfg4 ''lhs'') (snd f))
      \<longrightarrow> fst (sample_sparse_data lib0 (cfg4 ''lhs'') ?ll world0) = None \<and>
          map fst (written_by world0 (snd (sample_sparse_data lib0 (cfg4 ''lhs'') ?ll world0)))
            = map (\<lambda>f. output_name (fst f))
                (filter (\<lambda>f. df_valid_of (cfg4 ''lhs'') (snd f) \<noteq> [])
                   [(snapshot_name ''1'', table_low), (snapshot_name ''2'', table4),
                        (snapshot_name ''3'', table3)])"
    by blast
  then have lhs: "fst (sample_sparse_data lib0 (cfg4 ''lhs'') ?ll world0) = None \<and>
          map fst (written_by world0 (snd (sample_sparse_data lib0 (cfg4 ''lhs'') ?ll world0)))
            = [output_name (snapshot_name ''2''), output_name (snapshot_name ''3'')]"
    using sl files v1 v2 v3 r2 r3 by simp
  let ?lr = "[(snapshot_name ''3'', table3), (snapshot_name ''1'', table_low),
              (snapshot_name ''2'', table3)]"
  have rfiles: "csv_files lib0 ?lr
                  = Inr ([(snapshot_name ''1'', table_low)] @ (snapshot_name ''2'', table3)
                           # [(snapshot_name ''3'', table3)])"
    by code_simp
  have q1: "df_valid_of (cfg0 ''random'') table_low = []" by code_simp
  have q2: "df_valid_of (cfg0 ''random'') table3 \<noteq> []" by code_simp
  have q3: "count_in_range lib0 (cfg0 ''random'') table3" by code_simp
  note r = sample_count_by_strategy [of lib0 "cfg0 ''random''" 0 world0 ?lr "[]" 0]
  from r have "csv_files lib0 ?lr
                  = Inr ([(snapshot_name ''1'', table_low)] @ (snapshot_name ''2'', table3)
                           # [(snapshot_name ''3'', table3)]) \<and>
      (\<forall>f \<in> set [(snapshot_name ''1'', table_low)]. df_valid_of (cfg0 ''random'') (snd f) = []) \<and>
      df_valid_of (cfg0 ''random'') (snd (snapshot_name ''2'', table3)) \<noteq> [] \<and>
      count_in_range lib0 (cfg0 ''random'') (snd (snapshot_name ''2'', table3))
      \<longrightarrow> (\<exists>rows more. written_by world0 (snd (sample_sparse_data lib0 (cfg0 ''random'') ?lr world0))
                           = (output_name (fst (snapshot_name ''2'', table3)), rows) # more)"
    by blast
  then have "\<exists>rows more. written_by world0 (snd (sample_sparse_data lib0 (cfg0 ''random'') ?lr world0))
                           = (output_name (snapshot_name ''2''), rows) # more"
    using rfiles q1 q2 q3 by simp
  then have first: "map fst (take 1 (written_by world0
                      (snd (sample_sparse_data lib0 (cfg0 ''random'') ?lr world0))))
                      = [output_name (snapshot_name ''2'')]"
    by auto
  show ?thesis using ev n vc len lhs first by simp
qed


text \<open>
  C3. The random strategy draws from a generator seeded afresh with 42 and is deterministic
  (\<open>random_ignores_global_generator\<close>). The uniform strategy is not: its
  \<^verbatim>\<open>bin_df.sample(1)\<close> has no \<^verbatim>\<open>random_state\<close> and draws from NumPy's global
  generator, so the same table and configuration give different rows in two invocations
  that find the global generator in different states.
\<close>

theorem uniform_rows_depend_on_global_generator:
  "written_by world0
     (snd (sample_sparse_data lib0 (cfg0 ''uniform'') [(snapshot_name ''1'', table3)]
             (world0\<lparr>np_random := [0]\<rparr>)))
     = [(output_name (snapshot_name ''1''), [mk_row 0 0 1])] \<and>
   written_by world0
     (snd (sample_sparse_data lib0 (cfg0 ''uniform'') [(snapshot_name ''1'', table3)]
             (world0\<lparr>np_random := [1]\<rparr>)))
     = [(output_name (snapshot_name ''1''), [mk_row 1 1 2])]"
  by code_simp

text \<open>
  C4 as stated fails: with an unknown strategy and a snapshot that has no valid row, the
  invocation creates the output directory, prints the warning and returns normally; no
  error is raised.
\<close>

theorem unknown_strategy_counterexample:
  "sample_strategy (cfg0 ''kmeans'') = ''kmeans'' \<and>
   sample_sparse_data lib0 (cfg0 ''kmeans'') [(snapshot_name ''1'', table_low)] world0
     = (None, world0\<lparr>made_dirs := [''out''], stdout := [Warn (snapshot_name ''1'')]\<rparr>)"
  by code_simp

text \<open>The theorem on unknown strategies at a directory of two snapshots, the earlier one
  without a valid row.\<close>

theorem unknown_strategy_no_output_witness:
  "fst (sample_sparse_data lib0 (cfg0 ''kmeans'')
          [(snapshot_name ''2'', table3), (snapshot_name ''1'', table_low)] world0)
     = Some ValueError_strategy \<and>
   out_files (snd (sample_sparse_data lib0 (cfg0 ''kmeans'')
          [(snapshot_name ''2'', table3), (snapshot_name ''1'', table_low)] world0)) = [] \<and>
   stdout (snd (sample_sparse_data lib0 (cfg0 ''kmeans'')
          [(snapshot_name ''2'', table3), (snapshot_name ''1'', table_low)] world0))
     = [Warn (snapshot_name ''1'')]"
proof -
  let ?listing = "[(snapshot_name ''2'', table3), (snapshot_name ''1'', table_low)]"
  have s: "sample_strategy (cfg0 ''kmeans'') \<notin> {''lhs'', ''random'', ''uniform''}"
    by (simp add: cfg0_def)
  have files: "csv_files lib0 ?listing
                 = Inr [(snapshot_name ''1'', table_low), (snapshot_name ''2'', table3)]"
    by code_simp
  have v1: "df_valid_of (cfg0 ''kmeans'') table_low = []" by code_simp
  have v2: "df_valid_of (cfg0 ''kmeans'') table3 \<noteq> []" by code_simp
  have o: "out_files world0 = []" and st: "stdout world0 = []" by (simp_all add: world0_def)
  from unknown_strategy_no_output [OF s, of lib0 ?listing world0] files
  show ?thesis using v1 v2 o st by simp
qed

text \<open>The Latin-hypercube positions where all design points fall nearest to row 0 and the
  backfill supplies the second position.\<close>

theorem lhs_indices_valid_distinct_witness:
  "df_valid_of (cfg0 ''lhs'') table3 = [mk_row 0 0 1, mk_row 1 1 2, mk_row 2 2 3] \<and>
   lhs_unique_indices lib1 (df_valid_of (cfg0 ''lhs'') table3) 2 = [0] \<and>
   lhs_indices lib1 (df_valid_of (cfg0 ''lhs'') table3) 2 [1] = Inr ([0, 2], []) \<and>
   distinct [0, 2 :: nat] \<and> set [0, 2 :: nat] \<subseteq> {0..<3}"
proof -
  have v: "df_valid_of (cfg0 ''lhs'') table3 \<noteq> []" by code_simp
  have d: "df_valid_of (cfg0 ''lhs'') table3 = [mk_row 0 0 1, mk_row 1 1 2, mk_row 2 2 3]"
    by code_simp
  have u: "lhs_unique_indices lib1 (df_valid_of (cfg0 ''lhs'') table3) 2 = [0]" by code_simp
  have r: "lhs_indices lib1 (df_valid_of (cfg0 ''lhs'') table3) 2 [1] = Inr ([0, 2], [])"
    by code_simp
  have l: "length (df_valid_of (cfg0 ''lhs'') table3) = 3" by code_simp
  from lhs_indices_valid_distinct [OF v, of lib1 2 "[1]"] r l
  have "distinct [0, 2 :: nat] \<and> set [0, 2 :: nat] \<subseteq> {0..<3}" by simp
  then show ?thesis using d u r by simp
qed

text \<open>The threshold theorem at a run of the random strategy.\<close>

theorem outputs_meet_threshold_witness:
  "written_by world0
     (snd (sample_sparse_data lib0 (cfg0 ''random'') [(snapshot_name ''1'', table3)] world0))
     = [(output_name (snapshot_name ''1''), [mk_row 0 0 1, mk_row 2 2 3])] \<and>
   min_concentration (cfg0 ''random'') \<le> conc (mk_row 0 0 1) \<and>
   min_concentration (cfg0 ''random'') \<le> conc (mk_row 2 2 3)"
proof -
  have ev: "written_by world0
     (snd (sample_sparse_data lib0 (cfg0 ''random'') [(snapshot_name ''1'', table3)] world0))
     = [(output_name (snapshot_name ''1''), [mk_row 0 0 1, mk_row 2 2 3])]"
    by code_simp
  from outputs_meet_threshold [of world0 lib0 "cfg0 ''random''" "[(snapshot_name ''1'', table3)]"]
  have "\<forall>r \<in> set [mk_row 0 0 1, mk_row 2 2 3]. min_concentration (cfg0 ''random'') \<le> conc r"
    unfolding ev by simp
  then show ?thesis using ev by simp
qed


text \<open>
  C10. The sampler is to process exactly the files whose names start with the
  global-concentration prefix and end with .csv, in ascending order of the integer time
  in the name. Under the random strategy (and likewise the uniform one) it does not: the
  work list is right (the two snapshots, the earlier first, the other two files left
  out), but after writing the table of the first snapshot the diagnostics of line 105
  read \<^verbatim>\<open>x_min\<close>, which only the Latin-hypercube branch binds, and the invocation
  ends with UnboundLocalError before the second snapshot is reached.
\<close>

theorem random_stops_after_first_snapshot:
  "csv_files lib0 [(snapshot_name ''2'', table3), (''x.csv'', table3),
                   (global_prefix @ ''3.txt'', table3), (snapshot_name ''1'', table3)]
     = Inr [(snapshot_name ''1'', table3), (snapshot_name ''2'', table3)] \<and>
   sample_sparse_data lib0 (cfg0 ''random'')
       [(snapshot_name ''2'', table3), (''x.csv'', table3),
        (global_prefix @ ''3.txt'', table3), (snapshot_name ''1'', table3)] world0
     = (Some UnboundLocalError,
        world0\<lparr>made_dirs := [''out''],
               out_files := [(output_name (snapshot_name ''1''), [mk_row 0 0 1, mk_row 2 2 3])],
               stdout := [Done (snapshot_name ''1'') 3 2]\<rparr>) \<and>
   handled (stdout (snd (sample_sparse_data lib0 (cfg0 ''random'')
       [(snapshot_name ''2'', table3), (''x.csv'', table3),
        (global_prefix @ ''3.txt'', table3), (snapshot_name ''1'', table3)] world0)))
     = [snapshot_name ''1'']"
  by code_simp

text \<open>The work list of a directory with two snapshots and another file, and the failure on a
  name whose time is 0.5.\<close>

theorem snapshot_worklist_witness:
  "csv_files lib0 [(snapshot_name ''10'', table3), (''notes.txt'', []), (snapshot_name ''2'', table_low)]
     = Inr [(snapshot_name ''2'', table_low), (snapshot_name ''10'', table3)] \<and>
   time_of lib0 (snapshot_name ''2'') = 2 \<and> time_of lib0 (snapshot_name ''10'') = 10 \<and>
   handled (stdout (snd (sample_sparse_data lib0 (cfg0 ''lhs'')
      [(snapshot_name ''10'', table3), (''notes.txt'', []), (snapshot_name ''2'', table_low)] world0)))
     = [snapshot_name ''2'', snapshot_name ''10''] \<and>
   is_snapshot_name (snapshot_name ''0.5'') \<and>
   time_key lib0 (snapshot_name ''0.5'') = Inl ValueError_int_literal \<and>
   sample_sparse_data lib0 (cfg0 ''lhs'')
      [(snapshot_name ''10'', table3), (snapshot_name ''0.5'', table3)] world0
     = (Some ValueError_int_literal, world0\<lparr>made_dirs := [''out'']\<rparr>)"
proof -
  let ?l1 = "[(snapshot_name ''10'', table3), (''notes.txt'', []), (snapshot_name ''2'', table_low)]"
  let ?fs = "[(snapshot_name ''2'', table_low), (snapshot_name ''10'', table3)]"
  let ?l2 = "[(snapshot_name ''10'', table3), (snapshot_name ''0.5'', table3)]"
  have c: "csv_files lib0 ?l1 = Inr ?fs" by code_simp
  have t: "time_of lib0 (snapshot_name ''2'') = 2 \<and> time_of lib0 (snapshot_name ''10'') = 10"
    by code_simp
  have ok: "fst (sample_sparse_data lib0 (cfg0 ''lhs'') ?l1 world0) = None" by code_simp
  have s: "is_snapshot_name (snapshot_name ''0.5'')" by code_simp
  have k: "time_key lib0 (snapshot_name ''0.5'') = Inl ValueError_int_literal" by code_simp
  have w0: "handled (stdout world0) = []" "made_dirs world0 = []" "output_sparse_dir (cfg0 ''lhs'') = ''out''"
    by (simp_all add: world0_def cfg0_def)
  note thm1 = snapshot_worklist [of lib0 ?l1 "cfg0 ''lhs''" world0]
  from thm1 c ok w0
  have h: "handled (stdout (snd (sample_sparse_data lib0 (cfg0 ''lhs'') ?l1 world0)))
             = [snapshot_name ''2'', snapshot_name ''10'']"
    by auto
  note thm2 = snapshot_worklist [of lib0 ?l2 "cfg0 ''lhs''" world0]
  have m: "(snapshot_name ''0.5'', table3) \<in> set ?l2" by simp
  from thm2 m s k w0
  have e: "sample_sparse_data lib0 (cfg0 ''lhs'') ?l2 world0
             = (Some ValueError_int_literal, world0\<lparr>made_dirs := [''out'']\<rparr>)"
    by (metis append_Nil fst_conv)
  show ?thesis using c t h s k e by simp
qed

subsection \<open>The generator\<close>

text \<open>A concentration list one element short.\<close>

theorem mismatched_lengths_rejected_witness:
  "length (c0_list (scenario0\<lparr>c0_list := [100]\<rparr>)) = 1 \<and>
   length (sources (scenario0\<lparr>c0_list := [100]\<rparr>)) = 2 \<and>
   create_contamination_scenario G0 (scenario0\<lparr>c0_list := [100]\<rparr>) gen_world0
     = (Some ValueError_c0_length, gen_world0)"
proof -
  have h: "\<not> (length (c0_list (scenario0\<lparr>c0_list := [100]\<rparr>)) = length (sources (scenario0\<lparr>c0_list := [100]\<rparr>))
            \<and> length (Qa_list (scenario0\<lparr>c0_list := [100]\<rparr>)) = length (sources (scenario0\<lparr>c0_list := [100]\<rparr>)))"
    by (simp add: scenario0_def)
  have e: "fst (create_contamination_scenario G0 (scenario0\<lparr>c0_list := [100]\<rparr>) gen_world0)
             \<noteq> Some ValueError_Qa_length"
    by (simp add: create_contamination_scenario_def scenario0_def)
  from mismatched_lengths_rejected [OF h, of G0 gen_world0] e
  have "create_contamination_scenario G0 (scenario0\<lparr>c0_list := [100]\<rparr>) gen_world0
          = (Some ValueError_c0_length, gen_world0)"
    by (metis prod.collapse)
  then show ?thesis by (simp add: scenario0_def)
qed

text \<open>The two-source scenario observed at times 0 and 2.\<close>

theorem time_zero_field_witness:
  "gen_written gen_world0 (snd (create_contamination_scenario G0 scenario0 gen_world0))
     = [ParamLog True,
        CsvTable 0 [mk_row 0 0 0, mk_row 10 0 0, mk_row 0 20 0, mk_row 10 20 0],
        ContourPlot 0,
        CsvTable 2 [mk_row 0 0 (175 / 2), mk_row 10 0 (255 / 2),
                    mk_row 0 20 (335 / 2), mk_row 10 20 (415 / 2)],
        ContourPlot 2, SummaryPlot] \<and>
   conc (mk_row 0 0 0) = 0 \<and> conc (mk_row 10 0 0) = 0 \<and>
   conc (mk_row 0 20 0) = 0 \<and> conc (mk_row 10 20 0) = 0 \<and>
   map p_t (gen_called gen_world0 (snd (create_contamination_scenario G0 scenario0 gen_world0)))
     = [2, 2]"
proof -
  have ev: "gen_written gen_world0 (snd (create_contamination_scenario G0 scenario0 gen_world0))
     = [ParamLog True,
        CsvTable 0 [mk_row 0 0 0, mk_row 10 0 0, mk_row 0 20 0, mk_row 10 20 0],
        ContourPlot 0,
        CsvTable 2 [mk_row 0 0 (175 / 2), mk_row 10 0 (255 / 2),
                    mk_row 0 20 (335 / 2), mk_row 10 20 (415 / 2)],
        ContourPlot 2, SummaryPlot]"
    by code_simp
  have calls: "map p_t (gen_called gen_world0 (snd (create_contamination_scenario G0 scenario0 gen_world0)))
     = [2, 2]"
    by code_simp
  from time_zero_field [of G0 scenario0 "[]" "[]" 0 "[]" gen_world0]
  have "\<forall>tab. CsvTable 0 tab \<in> set (gen_written gen_world0
            (snd (create_contamination_scenario G0 scenario0 gen_world0))) \<longrightarrow>
          (\<forall>r \<in> set tab. conc r = 0)"
    by blast
  then have "\<forall>r \<in> set [mk_row 0 0 0, mk_row 10 0 0, mk_row 0 20 0, mk_row 10 20 0]. conc r = 0"
    unfolding ev by simp
  then show ?thesis using ev calls by simp
qed


end
